theory Spec2Isabelle
  imports Main "HOL-Library.Word" "HOL-Library.AList"
begin

section \<open>Data model of the in-memory transaction pool\<close>

text \<open>
  The pool of \<^verbatim>\<open>MemoryStorage.cpp\<close> is modelled sequentially: every operation takes
  the pool's state and returns the new one. Locks have no sequential meaning and are
  left out. Work that the source hands to a thread pool (\<^verbatim>\<open>m_worker->enqueue\<close>,
  \<^verbatim>\<open>m_notifier->enqueue\<close>) is recorded as a job in a queue of the state and is
  run by a function of its own. Calls to outside collaborators are recorded in logs of
  the state, so that "was it called" is a property of the state.
\<close>

type_synonym HashType = "256 word"
  \<comment> \<open>a fixed-width digest; \<^verbatim>\<open>HashType()\<close> is 0\<close>
type_synonym NonceType = "256 word"
  \<comment> \<open>an unsigned 256-bit number; \<^verbatim>\<open>NonceType(-1)\<close> is the all-ones value\<close>
type_synonym BlockNumber = int
  \<comment> \<open>a signed 64-bit number that the pool only compares and copies\<close>
type_synonym size_t = "64 word"
type_synonym NodeID = nat
type_synonym bytes = "8 word list"
type_synonym TxSubmitCallback = "nat option"
  \<comment> \<open>\<open>Some c\<close> is the closure number \<open>c\<close>; \<open>None\<close> is the empty \<^verbatim>\<open>std::function\<close>\<close>

text \<open>
  The status codes the pool itself produces or tests, and \<open>OtherStatus\<close> for the
  remaining codes of the enumeration, which the pool only passes on.
\<close>

datatype TransactionStatus =
    NoneStatus
  | NonceCheckFail
  | BlockLimitCheckFail
  | TxPoolIsFull
  | Malform
  | AlreadyInTxPool
  | OtherStatus int

record Transaction =
  hash :: HashType
  nonce :: NonceType
  to :: string
  importTime :: nat
  sealed :: bool
  batchId :: BlockNumber
  batchHash :: HashType
  synced :: bool
  systemTx :: bool
  knownNodes :: "NodeID set"
  submitCallback :: TxSubmitCallback

record TransactionSubmitResult =
  txHash :: HashType
  status :: TransactionStatus
  resultNonce :: NonceType

record TransactionMetaData =
  metaHash :: HashType
  metaTo :: string
  metaSource :: string

text \<open>Jobs handed to the notifier thread pool.\<close>

datatype NotifierJob =
    NotifyTxResultJob TxSubmitCallback TransactionSubmitResult
  | RemoveInvalidTxsJob

text \<open>
  What one run of the ledger pre-commit job meets: the pool is gone (the weak handle
  is dead), encoding throws, the ledger stores the transaction, or the ledger reports
  an error.
\<close>

datatype StoreOutcome = StorageGone | EncodeThrows | StoreOk | StoreFailed

text \<open>
  The configuration and the outside collaborators. The validator, the transaction
  factory and \<^verbatim>\<open>shouldNotifyTx\<close> (declared in the header) are parameters;
  \<open>c_maxRetryTime\<close> is the header's constant.
\<close>

record TxPoolConfig =
  poolLimit :: size_t
  c_maxRetryTime :: nat
  submittedToChain :: "Transaction \<Rightarrow> TransactionStatus"
  verify :: "Transaction \<Rightarrow> TransactionStatus"
  createTransaction :: "bytes \<Rightarrow> Transaction option"
  shouldNotifyTx :: "Transaction \<Rightarrow> TransactionSubmitResult \<Rightarrow> bool"

text \<open>
  The pool. \<open>m_txsTable\<close> is an association list: its order is the table's iteration
  order, its keys are distinct in every state the pool builds. \<open>m_unsealedTxsNotifier\<close>
  is \<open>None\<close> while no notifier is registered; a registered notifier, given the size
  and the retry number, answers whether it reports an error to its acknowledgement.
  The fields after it are the logs and queues of the effects.
\<close>

record MemoryStorage =
  m_txsTable :: "(HashType \<times> Transaction) list"
  m_sealedTxsSize :: size_t
  m_missedTxs :: "HashType set"
  m_invalidTxs :: "HashType set"
  m_invalidNonces :: "NonceType set"
  m_blockNumber :: BlockNumber
  m_blockNumberUpdatedTime :: nat
  m_unsealedTxsNotifier :: "(size_t \<Rightarrow> nat \<Rightarrow> bool) option"
  unsealedNotified :: "size_t list"
  onReadyCalls :: nat
  workerQueue :: "(Transaction \<times> nat) list"
  notifierQueue :: "NotifierJob list"
  submitCallbackCalls :: "(nat \<times> HashType \<times> TransactionStatus) list"
  ledgerStores :: "(HashType \<times> nat) list"
  ledgerNonceInserts :: "(BlockNumber \<times> NonceType list) list"
  poolNonceRemoves :: "NonceType list list"

text \<open>
  Modelled from the spec: what only the class's header declares. The counter
  \<open>m_sealedTxsSize\<close> is a \<open>size_t\<close>; a call of \<^verbatim>\<open>preCommitTransaction\<close> or
  \<^verbatim>\<open>notifyUnsealedTxsSize\<close> without a retry number passes 0 (the spec counts the initial
  attempt and 3 retries); \<^verbatim>\<open>submitTransaction(tx, callback)\<close> without its third
  argument takes the verify path.
\<close>

section \<open>Table primitives\<close>

definition count_tbl :: "(HashType \<times> Transaction) list \<Rightarrow> HashType \<Rightarrow> bool" where
  "count_tbl t h = (map_of t h \<noteq> None)"

definition size_tbl :: "(HashType \<times> Transaction) list \<Rightarrow> size_t" where
  "size_tbl t = of_nat (length t)"

section \<open>Unsealed size and its notification\<close>

definition unSealedTxsSizeWithoutLock :: "MemoryStorage \<Rightarrow> size_t \<times> MemoryStorage" where
  "unSealedTxsSizeWithoutLock s =
     (if size_tbl (m_txsTable s) < m_sealedTxsSize s
      then (0, s\<lparr>m_sealedTxsSize := size_tbl (m_txsTable s)\<rparr>)
      else (size_tbl (m_txsTable s) - m_sealedTxsSize s, s))"

definition unSealedTxsSize :: "MemoryStorage \<Rightarrow> size_t \<times> MemoryStorage" where
  "unSealedTxsSize s = unSealedTxsSizeWithoutLock s"

function notifyUnsealedTxsSize :: "nat \<Rightarrow> nat \<Rightarrow> MemoryStorage \<Rightarrow> MemoryStorage" where
  "notifyUnsealedTxsSize maxRetry retryTime s =
     (if m_unsealedTxsNotifier s = None then s
      else if \<not> the (m_unsealedTxsNotifier s) (fst (unSealedTxsSizeWithoutLock s)) retryTime
        then (snd (unSealedTxsSizeWithoutLock s))
               \<lparr>unsealedNotified := unsealedNotified s @ [fst (unSealedTxsSizeWithoutLock s)]\<rparr>
      else if retryTime \<ge> maxRetry
        then (snd (unSealedTxsSizeWithoutLock s))
               \<lparr>unsealedNotified := unsealedNotified s @ [fst (unSealedTxsSizeWithoutLock s)]\<rparr>
      else notifyUnsealedTxsSize maxRetry (retryTime + 1)
             ((snd (unSealedTxsSizeWithoutLock s))
               \<lparr>unsealedNotified := unsealedNotified s @ [fst (unSealedTxsSizeWithoutLock s)]\<rparr>))"
  by pat_completeness auto
termination
  by (relation "measure (\<lambda>(maxRetry, retryTime, s). maxRetry - retryTime)") auto

section \<open>Removal\<close>

definition removeWithoutLock :: "HashType \<Rightarrow> MemoryStorage \<Rightarrow> Transaction option \<times> MemoryStorage" where
  "removeWithoutLock h s =
     (case map_of (m_txsTable s) h of
        None \<Rightarrow> (None, s)
      | Some tx \<Rightarrow>
          (Some tx,
           s\<lparr>m_txsTable := AList.delete h (m_txsTable s),
             m_sealedTxsSize :=
               (if sealed tx then m_sealedTxsSize s - 1 else m_sealedTxsSize s)\<rparr>))"

definition remove :: "TxPoolConfig \<Rightarrow> HashType \<Rightarrow> MemoryStorage \<Rightarrow> Transaction option \<times> MemoryStorage" where
  "remove cfg h s =
     (case removeWithoutLock h s of
        (tx, s1) \<Rightarrow> (tx, notifyUnsealedTxsSize (c_maxRetryTime cfg) 0 s1))"

definition clear :: "MemoryStorage \<Rightarrow> MemoryStorage" where
  "clear s = s\<lparr>m_txsTable := []\<rparr>"

section \<open>Admission\<close>

definition notifyInvalidReceipt ::
  "HashType \<Rightarrow> TransactionStatus \<Rightarrow> TxSubmitCallback \<Rightarrow> MemoryStorage \<Rightarrow> MemoryStorage" where
  "notifyInvalidReceipt h st cb s =
     (case cb of
        None \<Rightarrow> s
      | Some c \<Rightarrow> s\<lparr>submitCallbackCalls := submitCallbackCalls s @ [(c, h, st)]\<rparr>)"

text \<open>
  \<^verbatim>\<open>preCommitTransaction(_tx, _retryTime)\<close> refuses a retry number above 3 and
  otherwise enqueues one store job on the worker.
\<close>

definition preCommitTransaction :: "Transaction \<Rightarrow> nat \<Rightarrow> MemoryStorage \<Rightarrow> MemoryStorage" where
  "preCommitTransaction tx retryTime s =
     (if retryTime > 3 then s
      else s\<lparr>workerQueue := workerQueue s @ [(tx, retryTime)]\<rparr>)"

text \<open>
  One run of the worker: the oldest job leaves the queue. If the pool is gone or the
  encoding throws, nothing else happens. Otherwise the ledger is asked to store the
  transaction (logged with the retry number); on an error the ledger's callback calls
  \<^verbatim>\<open>preCommitTransaction\<close> with the next retry number. The 100 ms sleep before it
  has no counterpart here.
\<close>

definition runWorkerJob :: "(HashType \<Rightarrow> nat \<Rightarrow> StoreOutcome) \<Rightarrow> MemoryStorage \<Rightarrow> MemoryStorage" where
  "runWorkerJob ledger s =
     (case workerQueue s of
        [] \<Rightarrow> s
      | (tx, retryTime) # q \<Rightarrow>
          (case ledger (hash tx) retryTime of
             StorageGone \<Rightarrow> s\<lparr>workerQueue := q\<rparr>
           | EncodeThrows \<Rightarrow> s\<lparr>workerQueue := q\<rparr>
           | StoreOk \<Rightarrow>
               s\<lparr>workerQueue := q, ledgerStores := ledgerStores s @ [(hash tx, retryTime)]\<rparr>
           | StoreFailed \<Rightarrow>
               preCommitTransaction tx (retryTime + 1)
                 (s\<lparr>workerQueue := q,
                    ledgerStores := ledgerStores s @ [(hash tx, retryTime)]\<rparr>)))"

definition jobWeight :: "Transaction \<times> nat \<Rightarrow> nat" where
  "jobWeight j = Suc (4 - snd j)"

definition queueWeight :: "MemoryStorage \<Rightarrow> nat" where
  "queueWeight s = sum_list (map jobWeight (workerQueue s))"

lemma queueWeight_runWorkerJob:
  "workerQueue s \<noteq> [] \<Longrightarrow> queueWeight (runWorkerJob ledger s) < queueWeight s"
  by (cases "workerQueue s")
     (auto simp: queueWeight_def runWorkerJob_def jobWeight_def preCommitTransaction_def
           split: StoreOutcome.splits)

text \<open>The worker runs its jobs, oldest first, until its queue is empty.\<close>

function drainWorker :: "(HashType \<Rightarrow> nat \<Rightarrow> StoreOutcome) \<Rightarrow> MemoryStorage \<Rightarrow> MemoryStorage" where
  "drainWorker ledger s =
     (if workerQueue s = [] then s else drainWorker ledger (runWorkerJob ledger s))"
  by pat_completeness auto
termination
  by (relation "measure (\<lambda>(ledger, s). queueWeight s)")
     (auto simp: queueWeight_runWorkerJob)

text \<open>
  \<^verbatim>\<open>insert\<close>: store under the transaction's hash (a new key goes to the end of the
  iteration order, which the source leaves open), fire the ready hook (counted in
  \<open>onReadyCalls\<close>), enqueue the pre-commit, notify.
\<close>

definition insert_tx :: "TxPoolConfig \<Rightarrow> Transaction \<Rightarrow> MemoryStorage \<Rightarrow> TransactionStatus \<times> MemoryStorage" where
  "insert_tx cfg tx s =
     (NoneStatus,
      notifyUnsealedTxsSize (c_maxRetryTime cfg) 0
        (preCommitTransaction tx 0
           (s\<lparr>m_txsTable := AList.update (hash tx) tx (m_txsTable s),
              onReadyCalls := onReadyCalls s + 1\<rparr>)))"

definition txpoolStorageCheck :: "Transaction \<Rightarrow> MemoryStorage \<Rightarrow> TransactionStatus" where
  "txpoolStorageCheck tx s =
     (if count_tbl (m_txsTable s) (hash tx) then AlreadyInTxPool else NoneStatus)"

definition enforceSubmitTransaction ::
  "TxPoolConfig \<Rightarrow> Transaction \<Rightarrow> MemoryStorage \<Rightarrow> TransactionStatus \<times> MemoryStorage" where
  "enforceSubmitTransaction cfg tx s =
     (if submittedToChain cfg tx = NonceCheckFail then (NonceCheckFail, s)
      else
        (case map_of (m_txsTable s) (hash tx) of
           Some old \<Rightarrow>
             (if \<not> sealed old
              then (NoneStatus,
                    s\<lparr>m_sealedTxsSize := m_sealedTxsSize s + 1,
                      m_txsTable :=
                        AList.update (hash tx)
                          (old\<lparr>sealed := True, batchId := batchId tx, batchHash := batchHash tx\<rparr>)
                          (m_txsTable s)\<rparr>)
              else if batchId old = batchId tx \<and> batchHash old = batchHash tx
              then (NoneStatus, s)
              else (AlreadyInTxPool, s))
         | None \<Rightarrow>
             (case insert_tx cfg (tx\<lparr>sealed := True\<rparr>)
                     (if \<not> sealed tx then s\<lparr>m_sealedTxsSize := m_sealedTxsSize s + 1\<rparr> else s) of
                (r, s1) \<Rightarrow> (NoneStatus, s1\<lparr>m_missedTxs := m_missedTxs s1 - {hash tx}\<rparr>))))"

definition verifyAndSubmitTransaction ::
  "TxPoolConfig \<Rightarrow> nat \<Rightarrow> Transaction \<Rightarrow> TxSubmitCallback \<Rightarrow> MemoryStorage
     \<Rightarrow> TransactionStatus \<times> MemoryStorage" where
  "verifyAndSubmitTransaction cfg now tx0 cb s =
     (if poolLimit cfg \<le> size_tbl (m_txsTable s) then (TxPoolIsFull, s)
      else
        (let tx = (if cb \<noteq> None then tx0\<lparr>submitCallback := cb\<rparr> else tx0) in
         if txpoolStorageCheck tx s \<noteq> NoneStatus then (txpoolStorageCheck tx s, s)
         else if verify cfg tx = NoneStatus
         then (case insert_tx cfg (tx\<lparr>importTime := now\<rparr>) s of
                 (r, s1) \<Rightarrow>
                   (r, if r \<noteq> NoneStatus
                       then notifyInvalidReceipt (hash tx) r (submitCallback tx)
                              (s1\<lparr>m_missedTxs := m_missedTxs s1 - {hash tx}\<rparr>)
                       else s1\<lparr>m_missedTxs := m_missedTxs s1 - {hash tx}\<rparr>))
         else (verify cfg tx, notifyInvalidReceipt (hash tx) (verify cfg tx) (submitCallback tx) s)))"

definition submitTransaction ::
  "TxPoolConfig \<Rightarrow> nat \<Rightarrow> Transaction \<Rightarrow> TxSubmitCallback \<Rightarrow> bool \<Rightarrow> MemoryStorage
     \<Rightarrow> TransactionStatus \<times> MemoryStorage" where
  "submitTransaction cfg now tx cb enforceImport s =
     (if \<not> enforceImport then verifyAndSubmitTransaction cfg now tx cb s
      else enforceSubmitTransaction cfg tx s)"

text \<open>
  The entry point on encoded bytes: a decoding failure is the factory's exception
  (\<open>createTransaction\<close> gives \<open>None\<close>).
\<close>

definition submitTransaction_bytes ::
  "TxPoolConfig \<Rightarrow> nat \<Rightarrow> bytes \<Rightarrow> TxSubmitCallback \<Rightarrow> MemoryStorage
     \<Rightarrow> TransactionStatus \<times> MemoryStorage" where
  "submitTransaction_bytes cfg now txData cb s =
     (case createTransaction cfg txData of
        None \<Rightarrow> (Malform, notifyInvalidReceipt 0 Malform cb s)
      | Some tx \<Rightarrow>
          (case submitTransaction cfg now tx cb False s of
             (result, s1) \<Rightarrow>
               (result,
                if result \<noteq> NoneStatus then notifyInvalidReceipt (hash tx) result cb s1 else s1)))"

section \<open>Removal on commit\<close>

definition notifyTxResult ::
  "TxPoolConfig \<Rightarrow> Transaction \<Rightarrow> TransactionSubmitResult \<Rightarrow> MemoryStorage \<Rightarrow> MemoryStorage" where
  "notifyTxResult cfg tx res s =
     (if \<not> shouldNotifyTx cfg tx res then s
      else s\<lparr>notifierQueue := notifierQueue s @ [NotifyTxResultJob (submitCallback tx) res]\<rparr>)"

definition removeSubmittedTxWithoutLock ::
  "TxPoolConfig \<Rightarrow> TransactionSubmitResult \<Rightarrow> MemoryStorage \<Rightarrow> Transaction option \<times> MemoryStorage" where
  "removeSubmittedTxWithoutLock cfg res s =
     (case removeWithoutLock (txHash res) s of
        (None, s1) \<Rightarrow> (None, s1)
      | (Some tx, s1) \<Rightarrow>
          (Some tx, notifyTxResult cfg tx res (notifyUnsealedTxsSize (c_maxRetryTime cfg) 0 s1)))"

text \<open>
  The loop of \<^verbatim>\<open>batchRemove\<close> over the results, with the nonce list and the count of
  removed transactions it builds.
\<close>

fun batchRemove_loop ::
  "TxPoolConfig \<Rightarrow> TransactionSubmitResult list \<Rightarrow> MemoryStorage \<times> NonceType list \<times> nat
     \<Rightarrow> MemoryStorage \<times> NonceType list \<times> nat" where
  "batchRemove_loop cfg [] acc = acc"
| "batchRemove_loop cfg (txResult # rest) (s, nonceList, succCount) =
     (case removeSubmittedTxWithoutLock cfg txResult s of
        (None, s1) \<Rightarrow>
          (if resultNonce txResult \<noteq> - 1
           then batchRemove_loop cfg rest (s1, nonceList @ [resultNonce txResult], succCount)
           else batchRemove_loop cfg rest (s1, nonceList, succCount))
      | (Some tx, s1) \<Rightarrow>
          batchRemove_loop cfg rest (s1, nonceList @ [nonce tx], succCount + 1))"

definition batchRemove ::
  "TxPoolConfig \<Rightarrow> nat \<Rightarrow> BlockNumber \<Rightarrow> TransactionSubmitResult list \<Rightarrow> MemoryStorage
     \<Rightarrow> MemoryStorage" where
  "batchRemove cfg now batchId' txsResult s =
     (case batchRemove_loop cfg txsResult (s\<lparr>m_blockNumberUpdatedTime := now\<rparr>, [], 0) of
        (s1, nonceList, succCount) \<Rightarrow>
          (if batchId' > m_blockNumber s1 then s1\<lparr>m_blockNumber := batchId'\<rparr> else s1)
            \<lparr>ledgerNonceInserts := ledgerNonceInserts s1 @ [(batchId', nonceList)],
             poolNonceRemoves := poolNonceRemoves s1 @ [nonceList]\<rparr>)"

section \<open>Fetching for the sealer\<close>

definition consEntry ::
  "HashType \<times> Transaction \<Rightarrow> (HashType \<times> Transaction) list \<times> 'a
     \<Rightarrow> (HashType \<times> Transaction) list \<times> 'a" where
  "consEntry e r = (e # fst r, snd r)"

text \<open>
  The scan of \<^verbatim>\<open>batchFetchTxs\<close>. It walks the table's entries in iteration order.
  A step changes only the transaction object it visits, so the scan returns the
  entries as they stand afterwards, next to the pool (whose own \<open>m_txsTable\<close> field
  is not read by the scan) and the two output lists. \<open>avoidTxs\<close> is \<open>None\<close> for a
  null pointer. When the limit is reached the entries not yet visited are returned
  unchanged.
\<close>

fun batchFetchTxs_loop ::
  "TxPoolConfig \<Rightarrow> nat \<Rightarrow> HashType set option \<Rightarrow> bool \<Rightarrow> (HashType \<times> Transaction) list
     \<Rightarrow> MemoryStorage \<times> TransactionMetaData list \<times> TransactionMetaData list
     \<Rightarrow> (HashType \<times> Transaction) list
          \<times> MemoryStorage \<times> TransactionMetaData list \<times> TransactionMetaData list" where
  "batchFetchTxs_loop cfg txsLimit avoidTxs avoidDuplicate [] acc = ([], acc)"
| "batchFetchTxs_loop cfg txsLimit avoidTxs avoidDuplicate ((k, tx) # rest) (s, txsList, sysTxsList) =
     (if hash tx \<in> m_invalidTxs s
      then consEntry (k, tx)
             (batchFetchTxs_loop cfg txsLimit avoidTxs avoidDuplicate rest (s, txsList, sysTxsList))
      else if submittedToChain cfg tx = NonceCheckFail
      then consEntry (k, tx)
             (batchFetchTxs_loop cfg txsLimit avoidTxs avoidDuplicate rest (s, txsList, sysTxsList))
      else if submittedToChain cfg tx = BlockLimitCheckFail \<and> \<not> sealed tx
      then consEntry (k, tx)
             (batchFetchTxs_loop cfg txsLimit avoidTxs avoidDuplicate rest
                (s\<lparr>m_invalidTxs := insert (hash tx) (m_invalidTxs s),
                   m_invalidNonces := insert (nonce tx) (m_invalidNonces s)\<rparr>,
                 txsList, sysTxsList))
      else if (case avoidTxs of None \<Rightarrow> False | Some a \<Rightarrow> hash tx \<in> a)
      then consEntry (k, tx)
             (batchFetchTxs_loop cfg txsLimit avoidTxs avoidDuplicate rest (s, txsList, sysTxsList))
      else if avoidDuplicate \<and> sealed tx
      then consEntry (k, tx)
             (batchFetchTxs_loop cfg txsLimit avoidTxs avoidDuplicate rest (s, txsList, sysTxsList))
      else
        (let txMetaData = \<lparr>metaHash = hash tx, metaTo = to tx, metaSource = ''From rpc''\<rparr>;
             sysTxsList1 = (if systemTx tx then sysTxsList @ [txMetaData] else sysTxsList);
             txsList1 = (if systemTx tx then txsList else txsList @ [txMetaData]);
             s1 = (if \<not> sealed tx then s\<lparr>m_sealedTxsSize := m_sealedTxsSize s + 1\<rparr> else s);
             tx1 = tx\<lparr>submitCallback := None, sealed := True, batchId := - 1, batchHash := 0\<rparr>
         in if length txsList1 + length sysTxsList1 \<ge> txsLimit
            then ((k, tx1) # rest, s1, txsList1, sysTxsList1)
            else consEntry (k, tx1)
                   (batchFetchTxs_loop cfg txsLimit avoidTxs avoidDuplicate rest
                      (s1, txsList1, sysTxsList1))))"

text \<open>
  \<^verbatim>\<open>batchFetchTxs\<close>: the scan, the notification, and the invalid-transaction purge
  enqueued on the notifier. The result is the pool and the two output blocks.
\<close>

definition batchFetchTxs ::
  "TxPoolConfig \<Rightarrow> TransactionMetaData list \<Rightarrow> TransactionMetaData list \<Rightarrow> nat
     \<Rightarrow> HashType set option \<Rightarrow> bool \<Rightarrow> MemoryStorage
     \<Rightarrow> MemoryStorage \<times> TransactionMetaData list \<times> TransactionMetaData list" where
  "batchFetchTxs cfg txsList sysTxsList txsLimit avoidTxs avoidDuplicate s =
     (case batchFetchTxs_loop cfg txsLimit avoidTxs avoidDuplicate (m_txsTable s)
             (s, txsList, sysTxsList) of
        (entries, s1, txsList1, sysTxsList1) \<Rightarrow>
          (let s2 = notifyUnsealedTxsSize (c_maxRetryTime cfg) 0 (s1\<lparr>m_txsTable := entries\<rparr>)
           in (s2\<lparr>notifierQueue := notifierQueue s2 @ [RemoveInvalidTxsJob]\<rparr>,
               txsList1, sysTxsList1)))"

section \<open>Marking\<close>

text \<open>One turn of the loop of \<^verbatim>\<open>batchMarkTxs\<close>, for the hash \<open>h\<close> of the list.\<close>

definition batchMarkTxs_step ::
  "BlockNumber \<Rightarrow> HashType \<Rightarrow> bool \<Rightarrow> HashType \<Rightarrow> MemoryStorage \<Rightarrow> MemoryStorage" where
  "batchMarkTxs_step batchId' batchHash' sealFlag h s =
     (case map_of (m_txsTable s) h of
        None \<Rightarrow> s
      | Some tx \<Rightarrow>
          (if batchHash tx \<noteq> 0 \<and> batchHash tx \<noteq> batchHash' \<and> \<not> sealFlag then s
           else
             s\<lparr>m_sealedTxsSize :=
                 (if sealFlag \<and> \<not> sealed tx then m_sealedTxsSize s + 1
                  else if \<not> sealFlag \<and> sealed tx then m_sealedTxsSize s - 1
                  else m_sealedTxsSize s),
               m_txsTable :=
                 AList.update h
                   (if sealFlag
                    then tx\<lparr>sealed := sealFlag, batchId := batchId', batchHash := batchHash'\<rparr>
                    else tx\<lparr>sealed := sealFlag\<rparr>)
                   (m_txsTable s)\<rparr>))"

definition batchMarkTxs ::
  "TxPoolConfig \<Rightarrow> HashType list \<Rightarrow> BlockNumber \<Rightarrow> HashType \<Rightarrow> bool \<Rightarrow> MemoryStorage
     \<Rightarrow> MemoryStorage" where
  "batchMarkTxs cfg txsHashList batchId' batchHash' sealFlag s =
     notifyUnsealedTxsSize (c_maxRetryTime cfg) 0
       (fold (batchMarkTxs_step batchId' batchHash' sealFlag) txsHashList s)"

definition markAll :: "bool \<Rightarrow> Transaction \<Rightarrow> Transaction" where
  "markAll sealFlag tx =
     (if \<not> sealFlag then tx\<lparr>sealed := sealFlag, batchId := - 1, batchHash := 0\<rparr>
      else tx\<lparr>sealed := sealFlag\<rparr>)"

definition batchMarkAllTxs :: "TxPoolConfig \<Rightarrow> bool \<Rightarrow> MemoryStorage \<Rightarrow> MemoryStorage" where
  "batchMarkAllTxs cfg sealFlag s =
     notifyUnsealedTxsSize (c_maxRetryTime cfg) 0
       (s\<lparr>m_txsTable := map (\<lambda>(k, tx). (k, markAll sealFlag tx)) (m_txsTable s),
          m_sealedTxsSize := (if sealFlag then size_tbl (m_txsTable s) else 0)\<rparr>)"

section \<open>Gossip: unknown transactions\<close>

definition appendKnownNode_step :: "NodeID \<Rightarrow> HashType \<Rightarrow> MemoryStorage \<Rightarrow> MemoryStorage" where
  "appendKnownNode_step peer h s =
     (case map_of (m_txsTable s) h of
        None \<Rightarrow> s
      | Some tx \<Rightarrow>
          s\<lparr>m_txsTable :=
              AList.update h (tx\<lparr>knownNodes := insert peer (knownNodes tx)\<rparr>) (m_txsTable s)\<rparr>)"

definition filterUnknown_step ::
  "HashType \<Rightarrow> HashType list \<times> MemoryStorage \<Rightarrow> HashType list \<times> MemoryStorage" where
  "filterUnknown_step h acc =
     (case acc of
        (unknownTxsList, s) \<Rightarrow>
          (if count_tbl (m_txsTable s) h then (unknownTxsList, s)
           else if h \<in> m_missedTxs s then (unknownTxsList, s)
           else (unknownTxsList @ [h], s\<lparr>m_missedTxs := insert h (m_missedTxs s)\<rparr>)))"

definition filterUnknownTxs ::
  "TxPoolConfig \<Rightarrow> HashType list \<Rightarrow> NodeID \<Rightarrow> MemoryStorage \<Rightarrow> HashType list \<times> MemoryStorage" where
  "filterUnknownTxs cfg txsHashList peer s =
     (case fold filterUnknown_step txsHashList
             ([], fold (appendKnownNode_step peer) txsHashList s) of
        (unknownTxsList, s1) \<Rightarrow>
          (unknownTxsList,
           if poolLimit cfg \<le> of_nat (card (m_missedTxs s1))
           then s1\<lparr>m_missedTxs := {}\<rparr> else s1))"

section \<open>The sealed counter and the table it counts\<close>

definition sealedNum :: "(HashType \<times> Transaction) list \<Rightarrow> nat" where
  "sealedNum t = length (filter (\<lambda>e. sealed (snd e)) t)"

definition unsealedNum :: "(HashType \<times> Transaction) list \<Rightarrow> nat" where
  "unsealedNum t = length (filter (\<lambda>e. \<not> sealed (snd e)) t)"

definition distinctKeys :: "(HashType \<times> Transaction) list \<Rightarrow> bool" where
  "distinctKeys t = distinct (map fst t)"

definition tableFits :: "(HashType \<times> Transaction) list \<Rightarrow> bool" where
  "tableFits t = (length t < 2 ^ 64)"

definition sealedInv :: "MemoryStorage \<Rightarrow> bool" where
  "sealedInv s = (unat (m_sealedTxsSize s) = sealedNum (m_txsTable s))"

definition poolOk :: "MemoryStorage \<Rightarrow> bool" where
  "poolOk s = (distinctKeys (m_txsTable s) \<and> tableFits (m_txsTable s) \<and> sealedInv s)"

section \<open>The cases of one step of the fetch scan\<close>

text \<open>
  Names for the three things a step of the scan of \<^verbatim>\<open>batchFetchTxs\<close> can do, and for
  what an emitting step makes of the pool, the transaction and the output lists. They
  are read off the scan; the lemmas \<open>loop_invalidates\<close>, \<open>loop_emits\<close> and \<open>loop_skips\<close>
  below prove that the scan does exactly this. \<open>keysMatch\<close>: every entry of the table
  is stored under the hash of its transaction, as \<^verbatim>\<open>insert\<close> stores it.
\<close>

definition fetchInvalidates :: "TxPoolConfig \<Rightarrow> MemoryStorage \<Rightarrow> Transaction \<Rightarrow> bool" where
  "fetchInvalidates cfg s tx =
     (hash tx \<notin> m_invalidTxs s \<and> submittedToChain cfg tx = BlockLimitCheckFail \<and> \<not> sealed tx)"

definition fetchEmits ::
  "TxPoolConfig \<Rightarrow> HashType set option \<Rightarrow> bool \<Rightarrow> MemoryStorage \<Rightarrow> Transaction \<Rightarrow> bool" where
  "fetchEmits cfg avoidTxs avoidDuplicate s tx =
     (hash tx \<notin> m_invalidTxs s \<and> submittedToChain cfg tx \<noteq> NonceCheckFail
      \<and> \<not> (submittedToChain cfg tx = BlockLimitCheckFail \<and> \<not> sealed tx)
      \<and> \<not> (case avoidTxs of None \<Rightarrow> False | Some a \<Rightarrow> hash tx \<in> a)
      \<and> \<not> (avoidDuplicate \<and> sealed tx))"

definition emitPool :: "Transaction \<Rightarrow> MemoryStorage \<Rightarrow> MemoryStorage" where
  "emitPool tx s = (if \<not> sealed tx then s\<lparr>m_sealedTxsSize := m_sealedTxsSize s + 1\<rparr> else s)"

definition emitTx :: "Transaction \<Rightarrow> Transaction" where
  "emitTx tx = tx\<lparr>submitCallback := None, sealed := True, batchId := - 1, batchHash := 0\<rparr>"

definition emitMeta :: "Transaction \<Rightarrow> TransactionMetaData" where
  "emitMeta tx = \<lparr>metaHash = hash tx, metaTo = to tx, metaSource = ''From rpc''\<rparr>"

definition emitTxs :: "Transaction \<Rightarrow> TransactionMetaData list \<Rightarrow> TransactionMetaData list" where
  "emitTxs tx txsList = (if systemTx tx then txsList else txsList @ [emitMeta tx])"

definition emitSys :: "Transaction \<Rightarrow> TransactionMetaData list \<Rightarrow> TransactionMetaData list" where
  "emitSys tx sysTxsList = (if systemTx tx then sysTxsList @ [emitMeta tx] else sysTxsList)"

definition keysMatch :: "(HashType \<times> Transaction) list \<Rightarrow> bool" where
  "keysMatch t = list_all (\<lambda>e. hash (snd e) = fst e) t"

section \<open>Store attempts a queued pre-commit job can still cause\<close>

definition jobBudget :: "Transaction \<times> nat \<Rightarrow> nat" where
  "jobBudget j = (if snd j \<le> 3 then 4 - snd j else 1)"

definition queueBudget :: "MemoryStorage \<Rightarrow> nat" where
  "queueBudget s = sum_list (map jobBudget (workerQueue s))"

section \<open>A small pool for the concrete checks\<close>

definition exampleTx :: "HashType \<Rightarrow> Transaction" where
  "exampleTx h =
     \<lparr>hash = h, nonce = h, to = ''0xa'', importTime = 0, sealed = False, batchId = - 1,
      batchHash = 0, synced = False, systemTx = False, knownNodes = {}, submitCallback = None\<rparr>"

definition exampleConfig :: TxPoolConfig where
  "exampleConfig =
     \<lparr>poolLimit = 2, c_maxRetryTime = 3, submittedToChain = (\<lambda>tx. NoneStatus),
      verify = (\<lambda>tx. NoneStatus), createTransaction = (\<lambda>b. Some (exampleTx (of_nat (length b)))),
      shouldNotifyTx = (\<lambda>tx r. submitCallback tx \<noteq> None)\<rparr>"

definition emptyPool :: MemoryStorage where
  "emptyPool =
     \<lparr>m_txsTable = [], m_sealedTxsSize = 0, m_missedTxs = {}, m_invalidTxs = {},
      m_invalidNonces = {}, m_blockNumber = 0, m_blockNumberUpdatedTime = 0,
      m_unsealedTxsNotifier = None, unsealedNotified = [], onReadyCalls = 0, workerQueue = [],
      notifierQueue = [], submitCallbackCalls = [], ledgerStores = [], ledgerNonceInserts = [],
      poolNonceRemoves = []\<rparr>"

definition examplePool :: MemoryStorage where
  "examplePool =
     emptyPool\<lparr>m_txsTable := [(1, exampleTx 1), (2, (exampleTx 2)\<lparr>sealed := True\<rparr>)],
               m_sealedTxsSize := 1,
               m_unsealedTxsNotifier := Some (\<lambda>n r. False)\<rparr>"

text \<open>
  \<open>clearedPool\<close>: a pool with a notifier takes one transaction by enforced import and is
  then cleared. \<open>rejectingConfig\<close>: a validator that answers \<open>NonceCheckFail\<close>.
  \<open>sealedPool\<close>: the example pool after transaction 1 is sealed for proposal (5, 0xDD).
\<close>

definition clearedPool :: MemoryStorage where
  "clearedPool =
     clear (snd (enforceSubmitTransaction exampleConfig (exampleTx 1)
                   (emptyPool\<lparr>m_unsealedTxsNotifier := Some (\<lambda>n r. False)\<rparr>)))"

definition rejectingConfig :: TxPoolConfig where
  "rejectingConfig = exampleConfig\<lparr>submittedToChain := (\<lambda>tx. NonceCheckFail)\<rparr>"

definition sealedPool :: MemoryStorage where
  "sealedPool = batchMarkTxs exampleConfig [1] 5 221 True examplePool"

text \<open>The configuration of the example with a pool limit of 4.\<close>

definition limit4Config :: TxPoolConfig where
  "limit4Config = exampleConfig\<lparr>poolLimit := 4\<rparr>"

text \<open>
  A validator for which transaction 0xCC has passed its block limit and transaction 3
  is on chain already, and a pool holding both and transaction 1.
\<close>

definition expiryConfig :: TxPoolConfig where
  "expiryConfig =
     exampleConfig\<lparr>submittedToChain :=
       (\<lambda>tx. if hash tx = 204 then BlockLimitCheckFail
             else if hash tx = 3 then NonceCheckFail else NoneStatus)\<rparr>"

definition expiryPool :: MemoryStorage where
  "expiryPool =
     emptyPool\<lparr>m_txsTable := [(204, exampleTx 204), (3, exampleTx 3), (1, exampleTx 1)]\<rparr>"

section \<open>Basic facts\<close>

declare notifyUnsealedTxsSize.simps [simp del]

lemma unSealed_fields [simp]:
  "m_txsTable (snd (unSealedTxsSizeWithoutLock s)) = m_txsTable s"
  "m_blockNumber (snd (unSealedTxsSizeWithoutLock s)) = m_blockNumber s"
  "m_missedTxs (snd (unSealedTxsSizeWithoutLock s)) = m_missedTxs s"
  "m_invalidTxs (snd (unSealedTxsSizeWithoutLock s)) = m_invalidTxs s"
  "m_invalidNonces (snd (unSealedTxsSizeWithoutLock s)) = m_invalidNonces s"
  "m_unsealedTxsNotifier (snd (unSealedTxsSizeWithoutLock s)) = m_unsealedTxsNotifier s"
  "workerQueue (snd (unSealedTxsSizeWithoutLock s)) = workerQueue s"
  "notifierQueue (snd (unSealedTxsSizeWithoutLock s)) = notifierQueue s"
  "submitCallbackCalls (snd (unSealedTxsSizeWithoutLock s)) = submitCallbackCalls s"
  "ledgerStores (snd (unSealedTxsSizeWithoutLock s)) = ledgerStores s"
  by (simp_all add: unSealedTxsSizeWithoutLock_def)

lemma unSealed_noclamp:
  "\<not> size_tbl (m_txsTable s) < m_sealedTxsSize s \<Longrightarrow> snd (unSealedTxsSizeWithoutLock s) = s"
  by (simp add: unSealedTxsSizeWithoutLock_def)

lemma notify_txsTable [simp]:
  "m_txsTable (notifyUnsealedTxsSize m r s) = m_txsTable s"
  by (induction m r s rule: notifyUnsealedTxsSize.induct)
     (subst notifyUnsealedTxsSize.simps, simp)

lemma notify_blockNumber [simp]:
  "m_blockNumber (notifyUnsealedTxsSize m r s) = m_blockNumber s"
  by (induction m r s rule: notifyUnsealedTxsSize.induct)
     (subst notifyUnsealedTxsSize.simps, simp)

lemma notify_sealed_noclamp:
  "\<not> size_tbl (m_txsTable s) < m_sealedTxsSize s \<Longrightarrow>
   m_sealedTxsSize (notifyUnsealedTxsSize m r s) = m_sealedTxsSize s"
  by (induction m r s rule: notifyUnsealedTxsSize.induct)
     (subst notifyUnsealedTxsSize.simps, simp add: unSealed_noclamp)


lemma unat_size_tbl: "length t < 2 ^ 64 \<Longrightarrow> unat (size_tbl t) = length t"
  by (simp add: size_tbl_def unat_of_nat)

lemma unSealed_unat:
  assumes fits: "length (m_txsTable s) < 2 ^ 64"
  shows "unat (fst (unSealedTxsSizeWithoutLock s)) = length (m_txsTable s) - unat (m_sealedTxsSize s)"
proof (cases "size_tbl (m_txsTable s) < m_sealedTxsSize s")
  case True
  then have "length (m_txsTable s) < unat (m_sealedTxsSize s)"
    using unat_size_tbl [OF fits] by (simp add: word_less_nat_alt)
  with True show ?thesis
    by (simp add: unSealedTxsSizeWithoutLock_def)
next
  case False
  then have "m_sealedTxsSize s \<le> size_tbl (m_txsTable s)" by simp
  with False show ?thesis
    using unat_size_tbl [OF fits]
    by (simp add: unSealedTxsSizeWithoutLock_def unat_sub)
qed

lemma removeWithoutLock_blockNumber [simp]:
  "m_blockNumber (snd (removeWithoutLock h s)) = m_blockNumber s"
  by (simp add: removeWithoutLock_def split: option.splits)

lemma removeSubmitted_blockNumber [simp]:
  "m_blockNumber (snd (removeSubmittedTxWithoutLock cfg r s)) = m_blockNumber s"
  by (simp add: removeSubmittedTxWithoutLock_def removeWithoutLock_def notifyTxResult_def split: option.splits prod.splits)

lemma batchRemove_loop_blockNumber:
  "m_blockNumber (fst (batchRemove_loop cfg rs acc)) = m_blockNumber (fst acc)"
proof (induction cfg rs acc rule: batchRemove_loop.induct)
  case (1 cfg acc)
  show ?case by simp
next
  case (2 cfg txResult rest s nonceList succCount)
  have eq: "m_blockNumber (snd (removeSubmittedTxWithoutLock cfg txResult s)) = m_blockNumber s"
    by simp
  show ?case
    using 2 eq
    by (cases "removeSubmittedTxWithoutLock cfg txResult s") (auto split: option.splits)
qed

lemma sealedNum_simps [simp]:
  "sealedNum [] = 0"
  "sealedNum ((k, tx) # t) = (if sealed tx then Suc (sealedNum t) else sealedNum t)"
  by (simp_all add: sealedNum_def)

lemma unsealedNum_simps [simp]:
  "unsealedNum [] = 0"
  "unsealedNum ((k, tx) # t) = (if sealed tx then unsealedNum t else Suc (unsealedNum t))"
  by (simp_all add: unsealedNum_def)

lemma sealedNum_le: "sealedNum t \<le> length t"
  by (simp add: sealedNum_def)

lemma sealed_unsealed: "sealedNum t + unsealedNum t = length t"
  by (induction t) auto

lemma sealedNum_update_new:
  "map_of t h = None \<Longrightarrow>
   sealedNum (AList.update h tx t) = (if sealed tx then Suc (sealedNum t) else sealedNum t)"
  by (induction t) (auto split: if_splits)

lemma length_update_new:
  "map_of t h = None \<Longrightarrow> length (AList.update h tx t) = Suc (length t)"
  by (induction t) (auto split: if_splits)

lemma length_update_old:
  "map_of t h = Some old \<Longrightarrow> length (AList.update h tx t) = length t"
  by (induction t) (auto split: if_splits)

lemma sealedNum_update_old:
  "map_of t h = Some old \<Longrightarrow> distinct (map fst t) \<Longrightarrow>
   (if sealed old then Suc (sealedNum (AList.update h tx t)) else sealedNum (AList.update h tx t))
     = (if sealed tx then Suc (sealedNum t) else sealedNum t)"
proof (induction t)
  case Nil
  then show ?case by simp
next
  case (Cons e t)
  obtain k v where e: "e = (k, v)" by (cases e)
  show ?case
  proof (cases "k = h")
    case True
    with Cons.prems e show ?thesis by auto
  next
    case False
    with Cons e show ?thesis by (auto split: if_splits)
  qed
qed

lemma sealedNum_delete:
  "map_of t h = Some old \<Longrightarrow> distinct (map fst t) \<Longrightarrow>
   (if sealed old then Suc (sealedNum (AList.delete h t)) else sealedNum (AList.delete h t))
     = sealedNum t"
proof (induction t)
  case Nil
  then show ?case by simp
next
  case (Cons e t)
  obtain k v where e: "e = (k, v)" by (cases e)
  show ?case
  proof (cases "k = h")
    case True
    with Cons.prems e have "h \<notin> fst ` set t" by auto
    then have "AList.delete h t = t"
      by (simp add: AList.delete_eq) (induction t, auto)
    with True Cons.prems e show ?thesis by (auto simp: AList.delete_eq)
  next
    case False
    with Cons e show ?thesis by (auto simp: AList.delete_eq split: if_splits)
  qed
qed

lemma length_delete_le: "length (AList.delete h t) \<le> length t"
  by (simp add: AList.delete_eq)

lemma unat_inc: "unat (c :: size_t) < n \<Longrightarrow> n < 2 ^ 64 \<Longrightarrow> unat (c + 1) = Suc (unat c)"
  by (simp add: unat_word_ariths)

lemma unat_dec: "unat (c :: size_t) = Suc n \<Longrightarrow> unat (c - 1) = n"
  by (metis diff_Suc_1 unat_minus_one unat_gt_0 zero_less_Suc)

lemma poolOk_noclamp:
  assumes "tableFits (m_txsTable s)" "sealedInv s"
  shows "\<not> size_tbl (m_txsTable s) < m_sealedTxsSize s"
proof -
  have "unat (m_sealedTxsSize s) \<le> length (m_txsTable s)"
    using assms sealedNum_le [of "m_txsTable s"] by (simp add: sealedInv_def)
  moreover have "unat (size_tbl (m_txsTable s)) = length (m_txsTable s)"
    using assms by (simp add: unat_size_tbl tableFits_def)
  ultimately show ?thesis by (simp add: word_less_nat_alt)
qed

lemma notify_sealedInv:
  "tableFits (m_txsTable s) \<Longrightarrow> sealedInv s \<Longrightarrow> sealedInv (notifyUnsealedTxsSize m r s)"
  using notify_sealed_noclamp [OF poolOk_noclamp, of s m r]
  by (simp add: sealedInv_def)

lemma notify_poolOk: "poolOk s \<Longrightarrow> poolOk (notifyUnsealedTxsSize m r s)"
  by (simp add: poolOk_def notify_sealedInv)

lemma removeWithoutLock_poolOk:
  assumes "poolOk s"
  shows "poolOk (snd (removeWithoutLock h s))"
proof (cases "map_of (m_txsTable s) h")
  case None
  with assms show ?thesis by (simp add: removeWithoutLock_def)
next
  case (Some tx)
  have d: "distinct (map fst (m_txsTable s))"
    using assms by (simp add: poolOk_def distinctKeys_def)
  have inv: "unat (m_sealedTxsSize s) = sealedNum (m_txsTable s)"
    using assms by (simp add: poolOk_def sealedInv_def)
  have fits: "length (AList.delete h (m_txsTable s)) < 2 ^ 64"
    using assms length_delete_le [of h "m_txsTable s"]
    by (simp add: poolOk_def tableFits_def)
  have "unat (if sealed tx then m_sealedTxsSize s - 1 else m_sealedTxsSize s)
          = sealedNum (AList.delete h (m_txsTable s))"
    using sealedNum_delete [OF Some d] inv
    by (auto simp: unat_dec split: if_splits)
  with Some d fits show ?thesis
    by (simp add: removeWithoutLock_def poolOk_def distinctKeys_def tableFits_def sealedInv_def
          distinct_delete)
qed

lemma remove_poolOk: "poolOk s \<Longrightarrow> poolOk (snd (remove cfg h s))"
  using removeWithoutLock_poolOk [of s h]
  by (cases "removeWithoutLock h s") (simp add: remove_def notify_poolOk)

lemma notifyTxResult_poolOk: "poolOk s \<Longrightarrow> poolOk (notifyTxResult cfg tx r s)"
  by (simp add: notifyTxResult_def poolOk_def sealedInv_def)

lemma removeSubmitted_poolOk:
  "poolOk s \<Longrightarrow> poolOk (snd (removeSubmittedTxWithoutLock cfg r s))"
  using removeWithoutLock_poolOk [of s "txHash r"]
  by (auto simp: removeSubmittedTxWithoutLock_def notify_poolOk notifyTxResult_poolOk
           split: prod.splits option.splits)

lemma batchRemove_loop_poolOk:
  "poolOk (fst acc) \<Longrightarrow> poolOk (fst (batchRemove_loop cfg rs acc))"
proof (induction cfg rs acc rule: batchRemove_loop.induct)
  case (1 cfg acc)
  then show ?case by simp
next
  case (2 cfg txResult rest s nonceList succCount)
  from "2.prems" have "poolOk (snd (removeSubmittedTxWithoutLock cfg txResult s))"
    by (simp add: removeSubmitted_poolOk)
  with 2 show ?case
    by (cases "removeSubmittedTxWithoutLock cfg txResult s") (auto split: option.splits)
qed

lemma batchRemove_poolOk:
  assumes "poolOk s"
  shows "poolOk (batchRemove cfg now b rs s)"
proof -
  have "poolOk (s\<lparr>m_blockNumberUpdatedTime := now\<rparr>)"
    using assms by (simp add: poolOk_def sealedInv_def)
  then have "poolOk (fst (batchRemove_loop cfg rs (s\<lparr>m_blockNumberUpdatedTime := now\<rparr>, [], 0)))"
    by (simp add: batchRemove_loop_poolOk)
  then show ?thesis
    by (auto simp: batchRemove_def poolOk_def sealedInv_def split: prod.splits)
qed

lemma batchMarkTxs_step_poolOk:
  assumes "poolOk s"
  shows "poolOk (batchMarkTxs_step b bh f h s)"
proof (cases "map_of (m_txsTable s) h")
  case None
  with assms show ?thesis by (simp add: batchMarkTxs_step_def)
next
  case (Some tx)
  have d: "distinct (map fst (m_txsTable s))"
    using assms by (simp add: poolOk_def distinctKeys_def)
  have inv: "unat (m_sealedTxsSize s) = sealedNum (m_txsTable s)"
    using assms by (simp add: poolOk_def sealedInv_def)
  have fits: "length (m_txsTable s) < 2 ^ 64"
    using assms by (simp add: poolOk_def tableFits_def)
  have len: "\<And>v. length (AList.update h v (m_txsTable s)) = length (m_txsTable s)"
    using Some by (rule length_update_old)
  have le: "\<And>v. sealedNum (AList.update h v (m_txsTable s)) \<le> length (m_txsTable s)"
    using sealedNum_le [of "AList.update h v (m_txsTable s)" for v] len by simp
  show ?thesis
  proof (cases "batchHash tx \<noteq> 0 \<and> batchHash tx \<noteq> bh \<and> \<not> f")
    case True
    with Some assms show ?thesis by (simp add: batchMarkTxs_step_def)
  next
    case False
    let ?tx' = "if f then tx\<lparr>sealed := f, batchId := b, batchHash := bh\<rparr> else tx\<lparr>sealed := f\<rparr>"
    let ?c' = "if f \<and> \<not> sealed tx then m_sealedTxsSize s + 1
               else if \<not> f \<and> sealed tx then m_sealedTxsSize s - 1 else m_sealedTxsSize s"
    have step: "batchMarkTxs_step b bh f h s =
          s\<lparr>m_sealedTxsSize := ?c', m_txsTable := AList.update h ?tx' (m_txsTable s)\<rparr>"
      using Some False by (auto simp add: batchMarkTxs_step_def)
    have num: "(if sealed tx then Suc (sealedNum (AList.update h ?tx' (m_txsTable s)))
                else sealedNum (AList.update h ?tx' (m_txsTable s)))
               = (if sealed ?tx' then Suc (sealedNum (m_txsTable s)) else sealedNum (m_txsTable s))"
      using Some d by (rule sealedNum_update_old)
    have "unat ?c' = sealedNum (AList.update h ?tx' (m_txsTable s))"
    proof (cases f)
      case True
      show ?thesis
      proof (cases "sealed tx")
        case True
        with \<open>f\<close> num inv show ?thesis by simp
      next
        case False
        with \<open>f\<close> num have n: "sealedNum (AList.update h ?tx' (m_txsTable s)) = Suc (sealedNum (m_txsTable s))"
          by simp
        then have "unat (m_sealedTxsSize s) < length (m_txsTable s)"
          using le [of ?tx'] inv by simp
        then have "unat (m_sealedTxsSize s + 1) = Suc (unat (m_sealedTxsSize s))"
          using fits by (rule unat_inc)
        with False \<open>f\<close> n inv show ?thesis by simp
      qed
    next
      case False
      then show ?thesis
        using num inv by (auto simp: unat_dec split: if_splits)
    qed
    with step d fits len show ?thesis
      by (simp add: poolOk_def distinctKeys_def tableFits_def sealedInv_def distinct_update)
  qed
qed

lemma batchMarkTxs_fold_poolOk:
  "poolOk s \<Longrightarrow> poolOk (fold (batchMarkTxs_step b bh f) hs s)"
  by (induction hs arbitrary: s) (simp_all add: batchMarkTxs_step_poolOk)

lemma batchMarkTxs_poolOk: "poolOk s \<Longrightarrow> poolOk (batchMarkTxs cfg hs b bh f s)"
  by (simp add: batchMarkTxs_def notify_poolOk batchMarkTxs_fold_poolOk)

lemma sealedNum_markAll:
  "sealedNum (map (\<lambda>(k, tx). (k, markAll f tx)) t) = (if f then length t else 0)"
  by (induction t) (auto simp: markAll_def)

lemma keys_markAll:
  "map (fst \<circ> (\<lambda>(k, tx). (k, markAll f tx))) t = map fst t"
  by (induction t) auto

lemma batchMarkAllTxs_poolOk:
  assumes "poolOk s"
  shows "poolOk (batchMarkAllTxs cfg f s)"
proof -
  let ?s1 = "s\<lparr>m_txsTable := map (\<lambda>(k, tx). (k, markAll f tx)) (m_txsTable s),
               m_sealedTxsSize := (if f then size_tbl (m_txsTable s) else 0)\<rparr>"
  have "poolOk ?s1"
    using assms
    by (simp add: poolOk_def distinctKeys_def tableFits_def sealedInv_def sealedNum_markAll
          unat_size_tbl keys_markAll)
  then show ?thesis
    by (simp add: batchMarkAllTxs_def notify_poolOk)
qed

lemma consEntry_simps [simp]:
  "fst (consEntry e r) = e # fst r"
  "snd (consEntry e r) = snd r"
  by (simp_all add: consEntry_def)

lemma unat_inc_room:
  "unat (c :: size_t) + Suc n < 2 ^ 64 \<Longrightarrow> unat (c + 1) = Suc (unat c)"
  by (rule unat_inc [of c "unat c + Suc n"]) simp_all

lemma loop_invalidates:
  "fetchInvalidates cfg s tx \<Longrightarrow>
   batchFetchTxs_loop cfg lim av dup ((k, tx) # rest) (s, txs, sys) =
     consEntry (k, tx)
       (batchFetchTxs_loop cfg lim av dup rest
          (s\<lparr>m_invalidTxs := insert (hash tx) (m_invalidTxs s),
             m_invalidNonces := insert (nonce tx) (m_invalidNonces s)\<rparr>, txs, sys))"
  by (simp add: fetchInvalidates_def)

lemma loop_emits:
  "fetchEmits cfg av dup s tx \<Longrightarrow>
   batchFetchTxs_loop cfg lim av dup ((k, tx) # rest) (s, txs, sys) =
     (if length (emitTxs tx txs) + length (emitSys tx sys) \<ge> lim
      then ((k, emitTx tx) # rest, emitPool tx s, emitTxs tx txs, emitSys tx sys)
      else consEntry (k, emitTx tx)
             (batchFetchTxs_loop cfg lim av dup rest
                (emitPool tx s, emitTxs tx txs, emitSys tx sys)))"
  by (auto simp add: fetchEmits_def emitPool_def emitTx_def emitMeta_def emitTxs_def emitSys_def
        Let_def)

lemma loop_skips:
  "\<not> fetchInvalidates cfg s tx \<Longrightarrow> \<not> fetchEmits cfg av dup s tx \<Longrightarrow>
   batchFetchTxs_loop cfg lim av dup ((k, tx) # rest) (s, txs, sys) =
     consEntry (k, tx) (batchFetchTxs_loop cfg lim av dup rest (s, txs, sys))"
  by (auto simp add: fetchEmits_def fetchInvalidates_def)

lemma batchFetchTxs_loop_keys:
  "map fst (fst (batchFetchTxs_loop cfg lim av dup t (s, txs, sys))) = map fst t"
proof (induction t arbitrary: s txs sys)
  case Nil
  show ?case by simp
next
  case (Cons e t)
  obtain k tx where e: "e = (k, tx)" by (cases e)
  consider (inv) "fetchInvalidates cfg s tx" | (emit) "fetchEmits cfg av dup s tx"
    | (skip) "\<not> fetchInvalidates cfg s tx" "\<not> fetchEmits cfg av dup s tx" by blast
  then show ?case
  proof cases
    case inv
    then show ?thesis unfolding e by (simp add: loop_invalidates Cons.IH del: batchFetchTxs_loop.simps)
  next
    case emit
    then show ?thesis unfolding e by (simp add: loop_emits Cons.IH del: batchFetchTxs_loop.simps)
  next
    case skip
    then show ?thesis unfolding e by (simp add: loop_skips Cons.IH del: batchFetchTxs_loop.simps)
  qed
qed

lemma batchFetchTxs_loop_length:
  "length (fst (batchFetchTxs_loop cfg lim av dup t (s, txs, sys))) = length t"
  using batchFetchTxs_loop_keys [of cfg lim av dup t s txs sys]
  by (metis length_map)

lemma batchFetchTxs_loop_sealed:
  "unat (m_sealedTxsSize s) + unsealedNum t < 2 ^ 64 \<Longrightarrow>
   unat (m_sealedTxsSize (fst (snd (batchFetchTxs_loop cfg lim av dup t (s, txs, sys))))) + sealedNum t
     = unat (m_sealedTxsSize s) + sealedNum (fst (batchFetchTxs_loop cfg lim av dup t (s, txs, sys)))"
proof (induction t arbitrary: s txs sys)
  case Nil
  show ?case by simp
next
  case (Cons e t)
  obtain k tx where e: "e = (k, tx)" by (cases e)
  have room: "unat (m_sealedTxsSize s) + unsealedNum t < 2 ^ 64"
    using Cons.prems e by (simp split: if_splits)
  consider (inv) "fetchInvalidates cfg s tx" | (emit) "fetchEmits cfg av dup s tx"
    | (skip) "\<not> fetchInvalidates cfg s tx" "\<not> fetchEmits cfg av dup s tx" by blast
  then show ?case
  proof cases
    case inv
    let ?s' = "s\<lparr>m_invalidTxs := insert (hash tx) (m_invalidTxs s),
                 m_invalidNonces := insert (nonce tx) (m_invalidNonces s)\<rparr>"
    have "unat (m_sealedTxsSize ?s') + unsealedNum t < 2 ^ 64" using room by simp
    from Cons.IH [OF this, of txs sys] inv show ?thesis
      unfolding e by (simp add: loop_invalidates del: batchFetchTxs_loop.simps)
  next
    case skip
    from Cons.IH [OF room, of txs sys] skip show ?thesis
      unfolding e by (simp add: loop_skips del: batchFetchTxs_loop.simps)
  next
    case emit
    have c: "unat (m_sealedTxsSize (emitPool tx s)) =
               (if sealed tx then unat (m_sealedTxsSize s) else Suc (unat (m_sealedTxsSize s)))"
    proof (cases "sealed tx")
      case True
      then show ?thesis by (simp add: emitPool_def)
    next
      case False
      with Cons.prems e have "unat (m_sealedTxsSize s) + Suc (unsealedNum t) < 2 ^ 64" by simp
      then have "unat (m_sealedTxsSize s + 1) = Suc (unat (m_sealedTxsSize s))"
        by (rule unat_inc_room)
      with False show ?thesis by (simp add: emitPool_def)
    qed
    then have "unat (m_sealedTxsSize (emitPool tx s)) + unsealedNum t < 2 ^ 64"
      using Cons.prems e by (simp split: if_splits)
    from Cons.IH [OF this] c emit show ?thesis
      unfolding e by (simp add: loop_emits emitTx_def del: batchFetchTxs_loop.simps)
  qed
qed

lemma batchFetchTxs_poolOk:
  assumes "poolOk s"
  shows "poolOk (fst (batchFetchTxs cfg txs sys lim av dup s))"
proof -
  let ?r = "batchFetchTxs_loop cfg lim av dup (m_txsTable s) (s, txs, sys)"
  have inv: "unat (m_sealedTxsSize s) = sealedNum (m_txsTable s)"
    using assms by (simp add: poolOk_def sealedInv_def)
  have fits: "length (m_txsTable s) < 2 ^ 64"
    using assms by (simp add: poolOk_def tableFits_def)
  have "unat (m_sealedTxsSize s) + unsealedNum (m_txsTable s) < 2 ^ 64"
    using inv fits sealed_unsealed [of "m_txsTable s"] by simp
  then have "unat (m_sealedTxsSize (fst (snd ?r))) + sealedNum (m_txsTable s)
               = unat (m_sealedTxsSize s) + sealedNum (fst ?r)"
    by (rule batchFetchTxs_loop_sealed)
  with inv have c: "unat (m_sealedTxsSize (fst (snd ?r))) = sealedNum (fst ?r)" by simp
  have "poolOk ((fst (snd ?r))\<lparr>m_txsTable := fst ?r\<rparr>)"
    using assms c fits
    by (simp add: poolOk_def distinctKeys_def tableFits_def sealedInv_def
          batchFetchTxs_loop_keys batchFetchTxs_loop_length)
  then have "poolOk (notifyUnsealedTxsSize (c_maxRetryTime cfg) 0
                      ((fst (snd ?r))\<lparr>m_txsTable := fst ?r\<rparr>))"
    by (rule notify_poolOk)
  then show ?thesis
    by (simp add: batchFetchTxs_def poolOk_def sealedInv_def Let_def case_prod_unfold)
qed

lemma insert_tx_table [simp]:
  "m_txsTable (snd (insert_tx cfg tx s)) = AList.update (hash tx) tx (m_txsTable s)"
  by (simp add: insert_tx_def preCommitTransaction_def)

lemma enforce_new_table:
  assumes "submittedToChain cfg tx \<noteq> NonceCheckFail" "map_of (m_txsTable s) (hash tx) = None"
  shows "m_txsTable (snd (enforceSubmitTransaction cfg tx s))
           = AList.update (hash tx) (tx\<lparr>sealed := True\<rparr>) (m_txsTable s)"
  using assms
  by (simp add: enforceSubmitTransaction_def case_prod_unfold)

lemma enforceSubmit_poolOk:
  assumes ok: "poolOk s"
    and pre: "count_tbl (m_txsTable s) (hash tx) \<or> \<not> sealed tx"
    and post: "tableFits (m_txsTable (snd (enforceSubmitTransaction cfg tx s)))"
  shows "poolOk (snd (enforceSubmitTransaction cfg tx s))"
proof (cases "submittedToChain cfg tx = NonceCheckFail")
  case True
  with ok show ?thesis by (simp add: enforceSubmitTransaction_def)
next
  case chain: False
  show ?thesis
  proof (cases "map_of (m_txsTable s) (hash tx)")
    case (Some old)
    show ?thesis
    proof (cases "sealed old")
      case True
      with chain Some ok show ?thesis by (simp add: enforceSubmitTransaction_def)
    next
      case False
      with chain Some have "snd (enforceSubmitTransaction cfg tx s)
            = batchMarkTxs_step (batchId tx) (batchHash tx) True (hash tx) s"
        by (simp add: enforceSubmitTransaction_def batchMarkTxs_step_def)
      with ok show ?thesis by (simp add: batchMarkTxs_step_poolOk)
    qed
  next
    case None
    with pre have unsealed: "\<not> sealed tx" by (simp add: count_tbl_def)
    let ?t' = "AList.update (hash tx) (tx\<lparr>sealed := True\<rparr>) (m_txsTable s)"
    let ?s1 = "s\<lparr>m_sealedTxsSize := m_sealedTxsSize s + 1, m_txsTable := ?t',
                 onReadyCalls := onReadyCalls s + 1\<rparr>"
    have inv: "unat (m_sealedTxsSize s) = sealedNum (m_txsTable s)"
      using ok by (simp add: poolOk_def sealedInv_def)
    have len: "length ?t' = Suc (length (m_txsTable s))"
      using None by (simp add: length_update_new)
    have fits: "length ?t' < 2 ^ 64"
      using post enforce_new_table [OF chain None] by (simp add: tableFits_def)
    have "unat (m_sealedTxsSize s) < length ?t'"
      using inv len sealedNum_le [of "m_txsTable s"] by simp
    then have inc: "unat (m_sealedTxsSize s + 1) = Suc (unat (m_sealedTxsSize s))"
      using fits by (rule unat_inc)
    have num: "sealedNum ?t' = Suc (sealedNum (m_txsTable s))"
      using None by (simp add: sealedNum_update_new)
    have d: "distinct (map fst ?t')"
      using ok by (simp add: poolOk_def distinctKeys_def distinct_update)
    have "poolOk (preCommitTransaction (tx\<lparr>sealed := True\<rparr>) 0 ?s1)"
      using d fits inc num inv
      by (simp add: poolOk_def distinctKeys_def tableFits_def sealedInv_def preCommitTransaction_def)
    then have "poolOk (notifyUnsealedTxsSize (c_maxRetryTime cfg) 0
                        (preCommitTransaction (tx\<lparr>sealed := True\<rparr>) 0 ?s1))"
      by (rule notify_poolOk)
    with chain None unsealed show ?thesis
      by (simp add: enforceSubmitTransaction_def insert_tx_def poolOk_def sealedInv_def
            case_prod_unfold)
  qed
qed

section \<open>What the notification leaves alone\<close>

lemma unSealed_snd:
  "snd (unSealedTxsSizeWithoutLock s) =
     s\<lparr>m_sealedTxsSize := m_sealedTxsSize (snd (unSealedTxsSizeWithoutLock s))\<rparr>"
  by (simp add: unSealedTxsSizeWithoutLock_def)

lemma notify_shape:
  "\<exists>c l. notifyUnsealedTxsSize m r s = s\<lparr>m_sealedTxsSize := c, unsealedNotified := l\<rparr>"
proof (induction m r s rule: notifyUnsealedTxsSize.induct)
  case (1 maxRetry retryTime s)
  let ?s1 = "(snd (unSealedTxsSizeWithoutLock s))
               \<lparr>unsealedNotified := unsealedNotified s @ [fst (unSealedTxsSizeWithoutLock s)]\<rparr>"
  have s1: "?s1 = s\<lparr>m_sealedTxsSize := m_sealedTxsSize ?s1, unsealedNotified := unsealedNotified ?s1\<rparr>"
    by (simp add: unSealedTxsSizeWithoutLock_def)
  have self: "s = s\<lparr>m_sealedTxsSize := m_sealedTxsSize s, unsealedNotified := unsealedNotified s\<rparr>"
    by simp
  show ?case
  proof (cases "m_unsealedTxsNotifier s = None")
    case True
    then have "notifyUnsealedTxsSize maxRetry retryTime s = s"
      by (subst notifyUnsealedTxsSize.simps) simp
    with self show ?thesis by metis
  next
    case n: False
    show ?thesis
    proof (cases "\<not> the (m_unsealedTxsNotifier s) (fst (unSealedTxsSizeWithoutLock s)) retryTime
                   \<or> retryTime \<ge> maxRetry")
      case True
      then have "notifyUnsealedTxsSize maxRetry retryTime s = ?s1"
        using n by (subst notifyUnsealedTxsSize.simps) auto
      with s1 show ?thesis by metis
    next
      case False
      then have eq: "notifyUnsealedTxsSize maxRetry retryTime s
                   = notifyUnsealedTxsSize maxRetry (retryTime + 1) ?s1"
        using n by (subst notifyUnsealedTxsSize.simps) auto
      from "1.IH" n False obtain c l where
        "notifyUnsealedTxsSize maxRetry (retryTime + 1) ?s1
           = ?s1\<lparr>m_sealedTxsSize := c, unsealedNotified := l\<rparr>"
        by auto
      then have "notifyUnsealedTxsSize maxRetry retryTime s
                   = ?s1\<lparr>m_sealedTxsSize := c, unsealedNotified := l\<rparr>"
        using eq by simp
      also have "\<dots> = s\<lparr>m_sealedTxsSize := c, unsealedNotified := l\<rparr>"
        by (subst unSealed_snd) simp
      finally show ?thesis by blast
    qed
  qed
qed

lemma notify_fields [simp]:
  "m_missedTxs (notifyUnsealedTxsSize m r s) = m_missedTxs s"
  "m_invalidTxs (notifyUnsealedTxsSize m r s) = m_invalidTxs s"
  "m_invalidNonces (notifyUnsealedTxsSize m r s) = m_invalidNonces s"
  "m_unsealedTxsNotifier (notifyUnsealedTxsSize m r s) = m_unsealedTxsNotifier s"
  "m_blockNumberUpdatedTime (notifyUnsealedTxsSize m r s) = m_blockNumberUpdatedTime s"
  "onReadyCalls (notifyUnsealedTxsSize m r s) = onReadyCalls s"
  "workerQueue (notifyUnsealedTxsSize m r s) = workerQueue s"
  "notifierQueue (notifyUnsealedTxsSize m r s) = notifierQueue s"
  "submitCallbackCalls (notifyUnsealedTxsSize m r s) = submitCallbackCalls s"
  "ledgerStores (notifyUnsealedTxsSize m r s) = ledgerStores s"
  "ledgerNonceInserts (notifyUnsealedTxsSize m r s) = ledgerNonceInserts s"
  "poolNonceRemoves (notifyUnsealedTxsSize m r s) = poolNonceRemoves s"
  using notify_shape [of m r s] by auto

lemma notify_no_notifier:
  "m_unsealedTxsNotifier s = None \<Longrightarrow> notifyUnsealedTxsSize m r s = s"
  by (subst notifyUnsealedTxsSize.simps) simp

lemma notify_sealed_clamp:
  "m_unsealedTxsNotifier s \<noteq> None \<Longrightarrow> size_tbl (m_txsTable s) < m_sealedTxsSize s \<Longrightarrow>
   m_sealedTxsSize (notifyUnsealedTxsSize m r s) = size_tbl (m_txsTable s)"
proof (induction m r s rule: notifyUnsealedTxsSize.induct)
  case (1 maxRetry retryTime s)
  let ?s1 = "(snd (unSealedTxsSizeWithoutLock s))
               \<lparr>unsealedNotified := unsealedNotified s @ [fst (unSealedTxsSizeWithoutLock s)]\<rparr>"
  have c1: "m_sealedTxsSize ?s1 = size_tbl (m_txsTable s)"
    using "1.prems" by (simp add: unSealedTxsSizeWithoutLock_def)
  have t1: "m_txsTable ?s1 = m_txsTable s" by simp
  have noclamp: "\<not> size_tbl (m_txsTable ?s1) < m_sealedTxsSize ?s1"
    unfolding c1 t1 by simp
  show ?case
  proof (cases "\<not> the (m_unsealedTxsNotifier s) (fst (unSealedTxsSizeWithoutLock s)) retryTime
                   \<or> retryTime \<ge> maxRetry")
    case True
    then have "notifyUnsealedTxsSize maxRetry retryTime s = ?s1"
      using "1.prems" by (subst notifyUnsealedTxsSize.simps) auto
    with c1 show ?thesis by simp
  next
    case False
    then have "notifyUnsealedTxsSize maxRetry retryTime s
                   = notifyUnsealedTxsSize maxRetry (retryTime + 1) ?s1"
      using "1.prems" by (subst notifyUnsealedTxsSize.simps) auto
    with notify_sealed_noclamp [OF noclamp] c1 show ?thesis by simp
  qed
qed

section \<open>C1: the sealed counter counts the sealed transactions\<close>

text \<open>
  \<open>sealedInv s\<close> is the equality of the claim: the counter, read as a number, is the
  number of entries of the table whose sealed flag is set. \<open>poolOk s\<close> adds what every
  table of the pool satisfies: its keys are distinct and its size is a \<open>size_t\<close>.
\<close>

lemma examplePool_ok: "poolOk examplePool"
  by (simp add: poolOk_def examplePool_def emptyPool_def distinctKeys_def tableFits_def
        sealedInv_def exampleTx_def)

lemma example_enforce_table:
  "m_txsTable (snd (enforceSubmitTransaction exampleConfig (exampleTx 3) examplePool))
    = [(1, exampleTx 1), (2, (exampleTx 2)\<lparr>sealed := True\<rparr>),
       (3, (exampleTx 3)\<lparr>sealed := True\<rparr>)]"
  by (simp add: enforceSubmitTransaction_def exampleConfig_def examplePool_def emptyPool_def
        exampleTx_def case_prod_unfold)

text \<open>
  C1, as stated, fails for \<^verbatim>\<open>enforceSubmitTransaction\<close>: a transaction that is not in
  the table and arrives with its sealed flag already set is inserted sealed, and the
  guard \<^verbatim>\<open>if (!_tx->sealed())\<close> skips the increment. On the empty pool the equality
  holds before the call and not after it.
\<close>

theorem sealed_count_enforce_counterexample:
  "poolOk emptyPool \<and>
   \<not> sealedInv (snd (enforceSubmitTransaction exampleConfig
                       ((exampleTx 1)\<lparr>sealed := True\<rparr>) emptyPool))"
  by (simp add: poolOk_def sealedInv_def distinctKeys_def tableFits_def emptyPool_def
        enforceSubmitTransaction_def exampleConfig_def exampleTx_def insert_tx_def
        preCommitTransaction_def notifyUnsealedTxsSize.simps)

text \<open>
  C1, amended: from a pool in which the counter equals the number of sealed entries,
  each of \<^verbatim>\<open>batchFetchTxs\<close>, \<^verbatim>\<open>batchMarkTxs\<close>, \<^verbatim>\<open>batchMarkAllTxs\<close>, \<^verbatim>\<open>remove\<close> and
  \<^verbatim>\<open>batchRemove\<close> leads to a pool in which it does again, and so does
  \<^verbatim>\<open>enforceSubmitTransaction\<close> when the hash is already in the table or the submitted
  transaction arrives unsealed (and the table still has a \<open>size_t\<close> size afterwards).
\<close>

theorem sealed_count_preserved:
  assumes "poolOk s"
  shows "((count_tbl (m_txsTable s) (hash tx) \<or> \<not> sealed tx)
            \<and> tableFits (m_txsTable (snd (enforceSubmitTransaction cfg tx s)))
          \<longrightarrow> poolOk (snd (enforceSubmitTransaction cfg tx s)))
       \<and> poolOk (fst (batchFetchTxs cfg txsList sysTxsList txsLimit avoidTxs avoidDuplicate s))
       \<and> poolOk (batchMarkTxs cfg txsHashList b bh sealFlag s)
       \<and> poolOk (batchMarkAllTxs cfg sealAll s)
       \<and> poolOk (snd (remove cfg h s))
       \<and> poolOk (batchRemove cfg now b' txsResult s)"
  using assms
  by (simp add: enforceSubmit_poolOk batchFetchTxs_poolOk batchMarkTxs_poolOk
        batchMarkAllTxs_poolOk remove_poolOk batchRemove_poolOk)

theorem sealed_count_preserved_witness:
  "poolOk examplePool
   \<and> \<not> sealed (exampleTx 3)
   \<and> tableFits (m_txsTable (snd (enforceSubmitTransaction exampleConfig (exampleTx 3) examplePool)))
   \<and> poolOk (snd (enforceSubmitTransaction exampleConfig (exampleTx 3) examplePool))
   \<and> poolOk (fst (batchFetchTxs exampleConfig [] [] 10 None False examplePool))
   \<and> poolOk (batchMarkTxs exampleConfig [1, 2] 7 5 True examplePool)
   \<and> poolOk (batchMarkAllTxs exampleConfig False examplePool)
   \<and> poolOk (snd (remove exampleConfig 2 examplePool))
   \<and> poolOk (batchRemove exampleConfig 0 9
               [\<lparr>txHash = 2, status = NoneStatus, resultNonce = 2\<rparr>] examplePool)"
proof -
  have u: "\<not> sealed (exampleTx 3)" by (simp add: exampleTx_def)
  have f: "tableFits (m_txsTable (snd (enforceSubmitTransaction exampleConfig (exampleTx 3)
             examplePool)))"
    by (simp add: example_enforce_table tableFits_def)
  show ?thesis
    using u f
      sealed_count_preserved [OF examplePool_ok, where tx = "exampleTx 3"
        and cfg = exampleConfig and txsList = "[]" and sysTxsList = "[]" and txsLimit = 10
        and avoidTxs = None and avoidDuplicate = False and txsHashList = "[1, 2]" and b = 7
        and bh = 5 and sealFlag = True and sealAll = False and h = 2 and now = 0 and b' = 9
        and txsResult = "[\<lparr>txHash = 2, status = NoneStatus, resultNonce = 2\<rparr>]"]
      examplePool_ok
    by simp
qed

section \<open>C2: enforced import of a known hash\<close>

text \<open>
  C2, as stated, fails: \<^verbatim>\<open>enforceSubmitTransaction\<close> first asks the validator, and on
  \<open>NonceCheckFail\<close> returns that status before it looks at the table. The hash is in
  the table, the entry is unsealed, and the call returns \<open>NonceCheckFail\<close> and seals
  nothing.
\<close>

theorem enforce_existing_counterexample:
  "map_of (m_txsTable examplePool) (hash (exampleTx 1)) = Some (exampleTx 1)
   \<and> \<not> sealed (exampleTx 1)
   \<and> fst (enforceSubmitTransaction rejectingConfig (exampleTx 1) examplePool) = NonceCheckFail
   \<and> snd (enforceSubmitTransaction rejectingConfig (exampleTx 1) examplePool) = examplePool"
  by (simp add: enforceSubmitTransaction_def rejectingConfig_def exampleConfig_def
        examplePool_def emptyPool_def exampleTx_def)

text \<open>
  C2, amended: for a transaction whose hash is in the table, if the validator's
  \<^verbatim>\<open>submittedToChain\<close> answers \<open>NonceCheckFail\<close> the call returns it and changes
  nothing; otherwise, if the existing entry is unsealed the call seals it with the
  given batch id and batch hash, adds one to the counter and returns \<open>None\<close>; if it is
  sealed with the same pair the call returns \<open>None\<close> and changes nothing; else it
  returns \<open>AlreadyInTxPool\<close> and changes nothing.
\<close>

theorem enforce_existing:
  assumes "map_of (m_txsTable s) (hash tx) = Some old"
  shows "(submittedToChain cfg tx = NonceCheckFail
            \<longrightarrow> enforceSubmitTransaction cfg tx s = (NonceCheckFail, s))
       \<and> (submittedToChain cfg tx \<noteq> NonceCheckFail \<and> \<not> sealed old
            \<longrightarrow> enforceSubmitTransaction cfg tx s =
                  (NoneStatus,
                   s\<lparr>m_sealedTxsSize := m_sealedTxsSize s + 1,
                     m_txsTable :=
                       AList.update (hash tx)
                         (old\<lparr>sealed := True, batchId := batchId tx, batchHash := batchHash tx\<rparr>)
                         (m_txsTable s)\<rparr>)
                \<and> map_of (m_txsTable (snd (enforceSubmitTransaction cfg tx s))) (hash tx)
                    = Some (old\<lparr>sealed := True, batchId := batchId tx, batchHash := batchHash tx\<rparr>))
       \<and> (submittedToChain cfg tx \<noteq> NonceCheckFail \<and> sealed old
            \<and> batchId old = batchId tx \<and> batchHash old = batchHash tx
            \<longrightarrow> enforceSubmitTransaction cfg tx s = (NoneStatus, s))
       \<and> (submittedToChain cfg tx \<noteq> NonceCheckFail \<and> sealed old
            \<and> \<not> (batchId old = batchId tx \<and> batchHash old = batchHash tx)
            \<longrightarrow> enforceSubmitTransaction cfg tx s = (AlreadyInTxPool, s))"
  using assms by (simp add: enforceSubmitTransaction_def update_conv')

theorem enforce_existing_witness:
  "map_of (m_txsTable examplePool) (hash (exampleTx 1)) = Some (exampleTx 1)
   \<and> enforceSubmitTransaction exampleConfig ((exampleTx 1)\<lparr>batchId := 7, batchHash := 11\<rparr>) examplePool
       = (NoneStatus,
          examplePool\<lparr>m_sealedTxsSize := 2,
            m_txsTable := [(1, (exampleTx 1)\<lparr>sealed := True, batchId := 7, batchHash := 11\<rparr>),
                           (2, (exampleTx 2)\<lparr>sealed := True\<rparr>)]\<rparr>)
   \<and> enforceSubmitTransaction exampleConfig (exampleTx 2) examplePool = (NoneStatus, examplePool)
   \<and> enforceSubmitTransaction exampleConfig ((exampleTx 2)\<lparr>batchId := 7\<rparr>) examplePool
       = (AlreadyInTxPool, examplePool)
   \<and> enforceSubmitTransaction rejectingConfig (exampleTx 1) examplePool
       = (NonceCheckFail, examplePool)"
proof -
  have a: "map_of (m_txsTable examplePool) (hash ((exampleTx 1)\<lparr>batchId := 7, batchHash := 11\<rparr>))
            = Some (exampleTx 1)"
    by (simp add: examplePool_def emptyPool_def exampleTx_def)
  have a': "map_of (m_txsTable examplePool) (hash (exampleTx 1)) = Some (exampleTx 1)"
    by (simp add: examplePool_def emptyPool_def exampleTx_def)
  have b: "map_of (m_txsTable examplePool) (hash (exampleTx 2)) = Some ((exampleTx 2)\<lparr>sealed := True\<rparr>)"
    by (simp add: examplePool_def emptyPool_def exampleTx_def)
  have c: "map_of (m_txsTable examplePool) (hash ((exampleTx 2)\<lparr>batchId := 7\<rparr>))
            = Some ((exampleTx 2)\<lparr>sealed := True\<rparr>)"
    by (simp add: examplePool_def emptyPool_def exampleTx_def)
  show ?thesis
    using a' enforce_existing [OF a, of exampleConfig] enforce_existing [OF b, of exampleConfig]
      enforce_existing [OF c, of exampleConfig] enforce_existing [OF a', of rejectingConfig]
    by (simp add: exampleConfig_def rejectingConfig_def exampleTx_def examplePool_def emptyPool_def)
qed

section \<open>C3: a full pool\<close>

lemma pool_full_word:
  assumes "tableFits (m_txsTable s)" "unat (poolLimit cfg) \<le> length (m_txsTable s)"
  shows "poolLimit cfg \<le> size_tbl (m_txsTable s)"
  using assms by (simp add: word_le_nat_alt unat_size_tbl tableFits_def)

text \<open>
  C3, as stated, fails for the entry point on encoded bytes: it passes every status
  other than \<open>None\<close> that the verify path returns to \<^verbatim>\<open>notifyInvalidReceipt\<close>, which
  invokes the callback. With the pool full, callback 7 is invoked with \<open>TxPoolIsFull\<close>.
\<close>

theorem pool_full_bytes_counterexample:
  "poolLimit exampleConfig \<le> size_tbl (m_txsTable examplePool)
   \<and> fst (submitTransaction_bytes exampleConfig 0 [] (Some 7) examplePool) = TxPoolIsFull
   \<and> submitCallbackCalls examplePool = []
   \<and> submitCallbackCalls (snd (submitTransaction_bytes exampleConfig 0 [] (Some 7) examplePool))
       = [(7, 0, TxPoolIsFull)]"
  by (simp add: submitTransaction_bytes_def submitTransaction_def verifyAndSubmitTransaction_def
        notifyInvalidReceipt_def exampleConfig_def examplePool_def emptyPool_def exampleTx_def
        size_tbl_def)

text \<open>
  C3, amended: when the table holds at least \<open>poolLimit\<close> entries,
  \<^verbatim>\<open>verifyAndSubmitTransaction\<close> and the transaction entry point with
  \<^verbatim>\<open>_enforceImport = false\<close> return \<open>TxPoolIsFull\<close> and change nothing (so no
  callback is invoked); the entry point on bytes that decode returns \<open>TxPoolIsFull\<close>,
  leaves the table unchanged and invokes the callback, when one is given, once with
  \<open>TxPoolIsFull\<close>.
\<close>

theorem pool_full:
  assumes "tableFits (m_txsTable s)" and "unat (poolLimit cfg) \<le> length (m_txsTable s)"
  shows "verifyAndSubmitTransaction cfg now tx cb s = (TxPoolIsFull, s)
       \<and> submitTransaction cfg now tx cb False s = (TxPoolIsFull, s)
       \<and> (createTransaction cfg txData = Some tx \<longrightarrow>
            fst (submitTransaction_bytes cfg now txData cb s) = TxPoolIsFull
          \<and> m_txsTable (snd (submitTransaction_bytes cfg now txData cb s)) = m_txsTable s
          \<and> submitCallbackCalls (snd (submitTransaction_bytes cfg now txData cb s))
              = submitCallbackCalls s
                  @ (case cb of None \<Rightarrow> [] | Some c \<Rightarrow> [(c, hash tx, TxPoolIsFull)]))"
  using pool_full_word [OF assms]
  by (simp add: verifyAndSubmitTransaction_def submitTransaction_def submitTransaction_bytes_def
        notifyInvalidReceipt_def split: option.splits)

theorem pool_full_witness:
  "tableFits (m_txsTable examplePool)
   \<and> unat (poolLimit exampleConfig) \<le> length (m_txsTable examplePool)
   \<and> verifyAndSubmitTransaction exampleConfig 0 (exampleTx 0) (Some 7) examplePool
       = (TxPoolIsFull, examplePool)
   \<and> createTransaction exampleConfig [] = Some (exampleTx 0)
   \<and> fst (submitTransaction_bytes exampleConfig 0 [] (Some 7) examplePool) = TxPoolIsFull"
proof -
  have a: "tableFits (m_txsTable examplePool)"
    by (simp add: tableFits_def examplePool_def)
  have b: "unat (poolLimit exampleConfig) \<le> length (m_txsTable examplePool)"
    by (simp add: exampleConfig_def examplePool_def)
  have c: "createTransaction exampleConfig [] = Some (exampleTx 0)"
    by (simp add: exampleConfig_def)
  show ?thesis
    using a b c pool_full [OF a b, of 0 "exampleTx 0" "Some 7" "[]"]
    by simp
qed

section \<open>C4: a stale unseal\<close>

lemma batchMarkTxs_step_other:
  "h' \<noteq> h \<Longrightarrow>
   map_of (m_txsTable (batchMarkTxs_step b bh f h' s)) h = map_of (m_txsTable s) h"
  by (simp add: batchMarkTxs_step_def update_conv' split: option.splits)

lemma batchMarkTxs_step_stale:
  "map_of (m_txsTable s) h = Some tx \<Longrightarrow> batchHash tx \<noteq> 0 \<Longrightarrow> batchHash tx \<noteq> bh \<Longrightarrow>
   batchMarkTxs_step b bh False h s = s"
  by (simp add: batchMarkTxs_step_def)

lemma batchMarkTxs_fold_keeps:
  "map_of (m_txsTable s) h = Some tx \<Longrightarrow> batchHash tx \<noteq> 0 \<Longrightarrow> batchHash tx \<noteq> bh \<Longrightarrow>
   map_of (m_txsTable (fold (batchMarkTxs_step b bh False) hs s)) h = Some tx"
proof (induction hs arbitrary: s)
  case Nil
  then show ?case by simp
next
  case (Cons h' hs)
  have "map_of (m_txsTable (batchMarkTxs_step b bh False h' s)) h = Some tx"
  proof (cases "h' = h")
    case True
    with Cons.prems show ?thesis by (simp add: batchMarkTxs_step_stale)
  next
    case False
    with Cons.prems show ?thesis by (simp add: batchMarkTxs_step_other)
  qed
  from Cons.IH [OF this Cons.prems(2,3)] show ?case by simp
qed

lemma batchMarkTxs_fold_stale:
  "map_of (m_txsTable s) h = Some tx \<Longrightarrow> batchHash tx \<noteq> 0 \<Longrightarrow> batchHash tx \<noteq> bh \<Longrightarrow>
   fold (batchMarkTxs_step b bh False) hs s = fold (batchMarkTxs_step b bh False) (removeAll h hs) s"
proof (induction hs arbitrary: s)
  case Nil
  then show ?case by simp
next
  case (Cons h' hs)
  show ?case
  proof (cases "h' = h")
    case True
    with Cons.prems have "batchMarkTxs_step b bh False h' s = s"
      by (simp add: batchMarkTxs_step_stale)
    with True Cons show ?thesis by simp
  next
    case False
    with Cons.prems have "map_of (m_txsTable (batchMarkTxs_step b bh False h' s)) h = Some tx"
      by (simp add: batchMarkTxs_step_other)
    from Cons.IH [OF this Cons.prems(2,3)] False show ?thesis by simp
  qed
qed

text \<open>
  C4: let the table hold a transaction under \<open>h\<close> whose batch hash is neither zero nor
  the \<open>batchHash\<close> argument. Then \<^verbatim>\<open>batchMarkTxs\<close> with \<^verbatim>\<open>_sealFlag = false\<close> leaves the
  entry as it is (sealed flag, batch id, batch hash), the turn of the loop for \<open>h\<close>
  changes nothing (the counter included), and the whole call does what it does on the
  list without \<open>h\<close>.
\<close>

theorem batchMarkTxs_stale_unseal:
  assumes "map_of (m_txsTable s) h = Some tx" and "batchHash tx \<noteq> 0" and "batchHash tx \<noteq> bh"
  shows "map_of (m_txsTable (batchMarkTxs cfg hs b bh False s)) h = Some tx
       \<and> batchMarkTxs_step b bh False h s = s
       \<and> batchMarkTxs cfg hs b bh False s = batchMarkTxs cfg (removeAll h hs) b bh False s"
proof -
  have "map_of (m_txsTable (batchMarkTxs cfg hs b bh False s)) h = Some tx"
    using batchMarkTxs_fold_keeps [OF assms, of b hs] by (simp add: batchMarkTxs_def)
  moreover have "batchMarkTxs_step b bh False h s = s"
    using assms by (rule batchMarkTxs_step_stale)
  moreover have "batchMarkTxs cfg hs b bh False s = batchMarkTxs cfg (removeAll h hs) b bh False s"
    using batchMarkTxs_fold_stale [OF assms, of b hs] by (simp add: batchMarkTxs_def)
  ultimately show ?thesis by blast
qed

lemma sealedPool_eq:
  "sealedPool = examplePool\<lparr>m_txsTable := [(1, (exampleTx 1)\<lparr>sealed := True, batchId := 5, batchHash := 221\<rparr>),
                           (2, (exampleTx 2)\<lparr>sealed := True\<rparr>)], m_sealedTxsSize := 2,
                          unsealedNotified := [0]\<rparr>"
  by (simp add: sealedPool_def batchMarkTxs_def batchMarkTxs_step_def examplePool_def emptyPool_def
       exampleTx_def exampleConfig_def notifyUnsealedTxsSize.simps unSealedTxsSizeWithoutLock_def
       size_tbl_def)

theorem batchMarkTxs_stale_unseal_witness:
  "map_of (m_txsTable sealedPool) 1 = Some ((exampleTx 1)\<lparr>sealed := True, batchId := 5, batchHash := 221\<rparr>)
   \<and> map_of (m_txsTable (batchMarkTxs exampleConfig [1] 4 238 False sealedPool)) 1
       = Some ((exampleTx 1)\<lparr>sealed := True, batchId := 5, batchHash := 221\<rparr>)
   \<and> batchMarkTxs exampleConfig [1] 4 238 False sealedPool
       = batchMarkTxs exampleConfig [] 4 238 False sealedPool"
proof -
  have a: "map_of (m_txsTable sealedPool) 1
             = Some ((exampleTx 1)\<lparr>sealed := True, batchId := 5, batchHash := 221\<rparr>)"
    by (simp add: sealedPool_eq)
  have b: "batchHash ((exampleTx 1)\<lparr>sealed := True, batchId := 5, batchHash := 221\<rparr>) \<noteq> 0" by simp
  have c: "batchHash ((exampleTx 1)\<lparr>sealed := True, batchId := 5, batchHash := 221\<rparr>) \<noteq> 238" by simp
  have d: "removeAll 1 [1 :: HashType] = []" by simp
  show ?thesis
    using a batchMarkTxs_stale_unseal [OF a b c, of exampleConfig "[1]" 4]
    unfolding d by blast
qed

section \<open>C5: failed chain checks during the fetch scan\<close>

declare batchFetchTxs_loop.simps(2) [simp del]

lemma loop_cases:
  obtains (inv) "fetchInvalidates cfg s tx" | (emit) "fetchEmits cfg av dup s tx"
    | (skip) "\<not> fetchInvalidates cfg s tx" "\<not> fetchEmits cfg av dup s tx"
  by blast

lemma emitPool_invalid [simp]:
  "m_invalidTxs (emitPool tx s) = m_invalidTxs s"
  "m_invalidNonces (emitPool tx s) = m_invalidNonces s"
  by (simp_all add: emitPool_def)

lemma loop_invalid_mono:
  "m_invalidTxs s \<subseteq> m_invalidTxs (fst (snd (batchFetchTxs_loop cfg lim av dup t (s, txs, sys))))
   \<and> m_invalidNonces s
       \<subseteq> m_invalidNonces (fst (snd (batchFetchTxs_loop cfg lim av dup t (s, txs, sys))))"
proof (induction t arbitrary: s txs sys)
  case Nil
  show ?case by simp
next
  case (Cons e t)
  obtain k tx where e: "e = (k, tx)" by (cases e)
  show ?case
  proof (cases rule: loop_cases [where cfg = cfg and s = s and tx = tx and av = av and dup = dup])
    case inv
    let ?s' = "s\<lparr>m_invalidTxs := insert (hash tx) (m_invalidTxs s),
                 m_invalidNonces := insert (nonce tx) (m_invalidNonces s)\<rparr>"
    from Cons.IH [of ?s' txs sys] inv show ?thesis
      unfolding e by (auto simp add: loop_invalidates)
  next
    case emit
    from Cons.IH [of "emitPool tx s" "emitTxs tx txs" "emitSys tx sys"] emit show ?thesis
      unfolding e by (simp add: loop_emits)
  next
    case skip
    from Cons.IH [of s txs sys] skip show ?thesis
      unfolding e by (simp add: loop_skips)
  qed
qed

lemma emit_lengths:
  "length (emitTxs tx txs) + length (emitSys tx sys) = Suc (length txs + length sys)"
  by (simp add: emitTxs_def emitSys_def)

lemma loop_length_mono:
  "length txs + length sys
     \<le> length (fst (snd (snd (batchFetchTxs_loop cfg lim av dup t (s, txs, sys)))))
       + length (snd (snd (snd (batchFetchTxs_loop cfg lim av dup t (s, txs, sys)))))"
proof (induction t arbitrary: s txs sys)
  case Nil
  show ?case by simp
next
  case (Cons e t)
  obtain k tx where e: "e = (k, tx)" by (cases e)
  show ?case
  proof (cases rule: loop_cases [where cfg = cfg and s = s and tx = tx and av = av and dup = dup])
    case inv
    from Cons.IH inv show ?thesis
      unfolding e by (simp add: loop_invalidates)
  next
    case emit
    from Cons.IH [of "emitTxs tx txs" "emitSys tx sys" "emitPool tx s"] emit
      emit_lengths [of tx txs sys]
    show ?thesis
      unfolding e by (simp add: loop_emits)
  next
    case skip
    from Cons.IH skip show ?thesis
      unfolding e by (simp add: loop_skips)
  qed
qed

text \<open>An entry whose check fails stays in the table as it is.\<close>

lemma loop_entry_kept:
  "(k, tx) \<in> set t \<Longrightarrow>
   submittedToChain cfg tx = NonceCheckFail
     \<or> (submittedToChain cfg tx = BlockLimitCheckFail \<and> \<not> sealed tx) \<Longrightarrow>
   (k, tx) \<in> set (fst (batchFetchTxs_loop cfg lim av dup t (s, txs, sys)))"
proof (induction t arbitrary: s txs sys)
  case Nil
  then show ?case by simp
next
  case (Cons e t)
  obtain k0 tx0 where e: "e = (k0, tx0)" by (cases e)
  show ?case
  proof (cases rule: loop_cases [where cfg = cfg and s = s and tx = tx0 and av = av and dup = dup])
    case inv
    from Cons inv show ?thesis
      unfolding e by (auto simp add: loop_invalidates)
  next
    case emit
    then have "(k, tx) \<noteq> (k0, tx0)"
      using Cons.prems(2) by (auto simp: fetchEmits_def)
    with Cons.prems e have "(k, tx) \<in> set t" by auto
    from Cons.IH [OF this Cons.prems(2)] this emit show ?thesis
      unfolding e by (simp add: loop_emits)
  next
    case skip
    from Cons skip show ?thesis
      unfolding e by (auto simp add: loop_skips)
  qed
qed

text \<open>Where the hashes of the invalid set and the emitted records come from.\<close>

lemma loop_invalid_source:
  "h \<in> m_invalidTxs (fst (snd (batchFetchTxs_loop cfg lim av dup t (s, txs, sys)))) \<Longrightarrow>
   h \<in> m_invalidTxs s
   \<or> (\<exists>e \<in> set t. hash (snd e) = h \<and> submittedToChain cfg (snd e) = BlockLimitCheckFail)"
proof (induction t arbitrary: s txs sys)
  case Nil
  then show ?case by simp
next
  case (Cons e t)
  obtain k tx where e: "e = (k, tx)" by (cases e)
  show ?case
  proof (cases rule: loop_cases [where cfg = cfg and s = s and tx = tx and av = av and dup = dup])
    case inv
    let ?s' = "s\<lparr>m_invalidTxs := insert (hash tx) (m_invalidTxs s),
                 m_invalidNonces := insert (nonce tx) (m_invalidNonces s)\<rparr>"
    from Cons.prems inv
    have "h \<in> m_invalidTxs (fst (snd (batchFetchTxs_loop cfg lim av dup t (?s', txs, sys))))"
      unfolding e by (simp add: loop_invalidates)
    from Cons.IH [OF this] inv show ?thesis
      unfolding e by (auto simp: fetchInvalidates_def)
  next
    case emit
    show ?thesis
    proof (cases "lim \<le> length (emitTxs tx txs) + length (emitSys tx sys)")
      case True
      with Cons.prems emit show ?thesis unfolding e by (simp add: loop_emits)
    next
      case False
      with Cons.prems emit
      have "h \<in> m_invalidTxs (fst (snd (batchFetchTxs_loop cfg lim av dup t
                 (emitPool tx s, emitTxs tx txs, emitSys tx sys))))"
        unfolding e by (simp add: loop_emits)
      from Cons.IH [OF this] show ?thesis by auto
    qed
  next
    case skip
    with Cons.prems
    have "h \<in> m_invalidTxs (fst (snd (batchFetchTxs_loop cfg lim av dup t (s, txs, sys))))"
      unfolding e by (simp add: loop_skips)
    from Cons.IH [OF this] show ?thesis by auto
  qed
qed

lemma emit_sets:
  "set (emitTxs tx txs) \<union> set (emitSys tx sys) = insert (emitMeta tx) (set txs \<union> set sys)"
  by (auto simp: emitTxs_def emitSys_def)

lemma loop_output_source:
  "m \<in> set (fst (snd (snd (batchFetchTxs_loop cfg lim av dup t (s, txs, sys)))))
       \<union> set (snd (snd (snd (batchFetchTxs_loop cfg lim av dup t (s, txs, sys))))) \<Longrightarrow>
   m \<in> set txs \<union> set sys
   \<or> (\<exists>e \<in> set t. metaHash m = hash (snd e)
          \<and> submittedToChain cfg (snd e) \<noteq> NonceCheckFail
          \<and> \<not> (submittedToChain cfg (snd e) = BlockLimitCheckFail \<and> \<not> sealed (snd e)))"
proof (induction t arbitrary: s txs sys)
  case Nil
  then show ?case by simp
next
  case (Cons e t)
  obtain k tx where e: "e = (k, tx)" by (cases e)
  show ?case
  proof (cases rule: loop_cases [where cfg = cfg and s = s and tx = tx and av = av and dup = dup])
    case inv
    let ?s' = "s\<lparr>m_invalidTxs := insert (hash tx) (m_invalidTxs s),
                 m_invalidNonces := insert (nonce tx) (m_invalidNonces s)\<rparr>"
    from Cons.prems inv
    have "m \<in> set (fst (snd (snd (batchFetchTxs_loop cfg lim av dup t (?s', txs, sys)))))
            \<union> set (snd (snd (snd (batchFetchTxs_loop cfg lim av dup t (?s', txs, sys)))))"
      unfolding e by (simp add: loop_invalidates)
    from Cons.IH [OF this] show ?thesis by auto
  next
    case emit
    have src: "m \<in> set (emitTxs tx txs) \<union> set (emitSys tx sys) \<Longrightarrow> ?thesis"
      using emit unfolding e emit_sets by (auto simp: fetchEmits_def emitMeta_def)
    show ?thesis
    proof (cases "lim \<le> length (emitTxs tx txs) + length (emitSys tx sys)")
      case True
      with Cons.prems emit have "m \<in> set (emitTxs tx txs) \<union> set (emitSys tx sys)"
        unfolding e by (simp add: loop_emits)
      then show ?thesis by (rule src)
    next
      case False
      with Cons.prems emit
      have "m \<in> set (fst (snd (snd (batchFetchTxs_loop cfg lim av dup t
                    (emitPool tx s, emitTxs tx txs, emitSys tx sys)))))
            \<union> set (snd (snd (snd (batchFetchTxs_loop cfg lim av dup t
                    (emitPool tx s, emitTxs tx txs, emitSys tx sys)))))"
        unfolding e by (simp add: loop_emits)
      from Cons.IH [OF this] src show ?thesis by auto
    qed
  next
    case skip
    with Cons.prems
    have "m \<in> set (fst (snd (snd (batchFetchTxs_loop cfg lim av dup t (s, txs, sys)))))
            \<union> set (snd (snd (snd (batchFetchTxs_loop cfg lim av dup t (s, txs, sys)))))"
      unfolding e by (simp add: loop_skips)
    from Cons.IH [OF this] show ?thesis by auto
  qed
qed

lemma loop_complete_hash:
  "length (fst (snd (snd (batchFetchTxs_loop cfg lim av dup t (s, txs, sys)))))
     + length (snd (snd (snd (batchFetchTxs_loop cfg lim av dup t (s, txs, sys))))) < lim \<Longrightarrow>
   (k, tx) \<in> set t \<Longrightarrow> submittedToChain cfg tx = BlockLimitCheckFail \<Longrightarrow> \<not> sealed tx \<Longrightarrow>
   hash tx \<in> m_invalidTxs (fst (snd (batchFetchTxs_loop cfg lim av dup t (s, txs, sys))))"
proof (induction t arbitrary: s txs sys)
  case Nil
  then show ?case by simp
next
  case (Cons e t)
  obtain k0 tx0 where e: "e = (k0, tx0)" by (cases e)
  show ?case
  proof (cases rule: loop_cases [where cfg = cfg and s = s and tx = tx0 and av = av and dup = dup])
    case inv
    let ?s' = "s\<lparr>m_invalidTxs := insert (hash tx0) (m_invalidTxs s),
                 m_invalidNonces := insert (nonce tx0) (m_invalidNonces s)\<rparr>"
    let ?r = "batchFetchTxs_loop cfg lim av dup t (?s', txs, sys)"
    have eq: "batchFetchTxs_loop cfg lim av dup (e # t) (s, txs, sys) = consEntry (k0, tx0) ?r"
      using inv unfolding e by (simp add: loop_invalidates)
    show ?thesis
    proof (cases "(k, tx) = (k0, tx0)")
      case True
      then have "hash tx \<in> m_invalidTxs ?s'" by simp
      with loop_invalid_mono [of ?s' cfg lim av dup t txs sys] show ?thesis
        unfolding eq by auto
    next
      case False
      with Cons.prems e have "(k, tx) \<in> set t" by auto
      from Cons.IH [OF _ this Cons.prems(3,4), of ?s' txs sys] Cons.prems(1) show ?thesis
        unfolding eq by simp
    qed
  next
    case emit
    have eq: "batchFetchTxs_loop cfg lim av dup (e # t) (s, txs, sys) =
       (if length (emitTxs tx0 txs) + length (emitSys tx0 sys) \<ge> lim
        then ((k0, emitTx tx0) # t, emitPool tx0 s, emitTxs tx0 txs, emitSys tx0 sys)
        else consEntry (k0, emitTx tx0)
               (batchFetchTxs_loop cfg lim av dup t
                  (emitPool tx0 s, emitTxs tx0 txs, emitSys tx0 sys)))"
      using emit unfolding e by (rule loop_emits)
    have nobreak: "\<not> lim \<le> length (emitTxs tx0 txs) + length (emitSys tx0 sys)"
      using Cons.prems(1) unfolding eq by (auto split: if_splits)
    have "(k, tx) \<noteq> (k0, tx0)"
      using emit Cons.prems(3,4) by (auto simp: fetchEmits_def)
    with Cons.prems e have "(k, tx) \<in> set t" by auto
    from Cons.IH [OF _ this Cons.prems(3,4), of "emitPool tx0 s" "emitTxs tx0 txs" "emitSys tx0 sys"]
      Cons.prems(1) nobreak
    show ?thesis unfolding eq by simp
  next
    case skip
    let ?r = "batchFetchTxs_loop cfg lim av dup t (s, txs, sys)"
    have eq: "batchFetchTxs_loop cfg lim av dup (e # t) (s, txs, sys) = consEntry (k0, tx0) ?r"
      using skip unfolding e by (simp add: loop_skips)
    show ?thesis
    proof (cases "(k, tx) = (k0, tx0)")
      case True
      with skip(1) Cons.prems(3,4) have "hash tx \<in> m_invalidTxs s"
        by (auto simp: fetchInvalidates_def)
      with loop_invalid_mono [of s cfg lim av dup t txs sys] show ?thesis
        unfolding eq by auto
    next
      case False
      with Cons.prems e have "(k, tx) \<in> set t" by auto
      from Cons.IH [OF _ this Cons.prems(3,4), of s txs sys] Cons.prems(1) show ?thesis
        unfolding eq by simp
    qed
  qed
qed

lemma loop_complete_nonce:
  "distinct (map (\<lambda>e. hash (snd e)) t) \<Longrightarrow>
   length (fst (snd (snd (batchFetchTxs_loop cfg lim av dup t (s, txs, sys)))))
     + length (snd (snd (snd (batchFetchTxs_loop cfg lim av dup t (s, txs, sys))))) < lim \<Longrightarrow>
   (k, tx) \<in> set t \<Longrightarrow> submittedToChain cfg tx = BlockLimitCheckFail \<Longrightarrow> \<not> sealed tx \<Longrightarrow>
   hash tx \<notin> m_invalidTxs s \<Longrightarrow>
   nonce tx \<in> m_invalidNonces (fst (snd (batchFetchTxs_loop cfg lim av dup t (s, txs, sys))))"
proof (induction t arbitrary: s txs sys)
  case Nil
  then show ?case by simp
next
  case (Cons e t)
  obtain k0 tx0 where e: "e = (k0, tx0)" by (cases e)
  have d: "distinct (map (\<lambda>e. hash (snd e)) t)" using Cons.prems(1) by simp
  have other: "(k, tx) \<noteq> (k0, tx0) \<Longrightarrow> (k, tx) \<in> set t \<and> hash tx \<noteq> hash tx0"
    using Cons.prems(1,3) e by (auto simp: image_iff)
  show ?case
  proof (cases rule: loop_cases [where cfg = cfg and s = s and tx = tx0 and av = av and dup = dup])
    case inv
    let ?s' = "s\<lparr>m_invalidTxs := insert (hash tx0) (m_invalidTxs s),
                 m_invalidNonces := insert (nonce tx0) (m_invalidNonces s)\<rparr>"
    let ?r = "batchFetchTxs_loop cfg lim av dup t (?s', txs, sys)"
    have eq: "batchFetchTxs_loop cfg lim av dup (e # t) (s, txs, sys) = consEntry (k0, tx0) ?r"
      using inv unfolding e by (simp add: loop_invalidates)
    show ?thesis
    proof (cases "(k, tx) = (k0, tx0)")
      case True
      then have "nonce tx \<in> m_invalidNonces ?s'" by simp
      with loop_invalid_mono [of ?s' cfg lim av dup t txs sys] show ?thesis
        unfolding eq by auto
    next
      case False
      from other [OF False] Cons.prems(6) have "hash tx \<notin> m_invalidTxs ?s'" by simp
      from Cons.IH [OF d _ _ Cons.prems(4,5) this, of txs sys] other [OF False] Cons.prems(2)
      show ?thesis unfolding eq by simp
    qed
  next
    case emit
    have eq: "batchFetchTxs_loop cfg lim av dup (e # t) (s, txs, sys) =
       (if length (emitTxs tx0 txs) + length (emitSys tx0 sys) \<ge> lim
        then ((k0, emitTx tx0) # t, emitPool tx0 s, emitTxs tx0 txs, emitSys tx0 sys)
        else consEntry (k0, emitTx tx0)
               (batchFetchTxs_loop cfg lim av dup t
                  (emitPool tx0 s, emitTxs tx0 txs, emitSys tx0 sys)))"
      using emit unfolding e by (rule loop_emits)
    have nobreak: "\<not> lim \<le> length (emitTxs tx0 txs) + length (emitSys tx0 sys)"
      using Cons.prems(2) unfolding eq by (auto split: if_splits)
    have ne: "(k, tx) \<noteq> (k0, tx0)"
      using emit Cons.prems(4,5) by (auto simp: fetchEmits_def)
    have "hash tx \<notin> m_invalidTxs (emitPool tx0 s)" using Cons.prems(6) by simp
    from Cons.IH [OF d _ _ Cons.prems(4,5) this, of "emitTxs tx0 txs" "emitSys tx0 sys"]
      other [OF ne] Cons.prems(2) nobreak
    show ?thesis unfolding eq by simp
  next
    case skip
    let ?r = "batchFetchTxs_loop cfg lim av dup t (s, txs, sys)"
    have eq: "batchFetchTxs_loop cfg lim av dup (e # t) (s, txs, sys) = consEntry (k0, tx0) ?r"
      using skip unfolding e by (simp add: loop_skips)
    have ne: "(k, tx) \<noteq> (k0, tx0)"
      using skip(1) Cons.prems(4,5,6) by (auto simp: fetchInvalidates_def)
    from Cons.IH [OF d _ _ Cons.prems(4,5,6), of txs sys] other [OF ne] Cons.prems(2)
    show ?thesis unfolding eq by simp
  qed
qed

lemma keysMatch_hashes:
  "keysMatch t \<Longrightarrow> map (\<lambda>e. hash (snd e)) t = map fst t"
  by (induction t) (simp_all add: keysMatch_def)

lemma entry_unique:
  assumes "distinctKeys t" "keysMatch t" "(k, tx) \<in> set t" "e \<in> set t" "hash (snd e) = hash tx"
  shows "snd e = tx"
proof -
  have m: "\<And>x. x \<in> set t \<Longrightarrow> hash (snd x) = fst x"
    using assms(2) by (simp add: keysMatch_def list_all_iff)
  have "fst e = k" using m [OF assms(4)] m [OF assms(3)] assms(5) by simp
  then have "(k, snd e) \<in> set t" using assms(4) by (cases e) simp
  with assms(1,3) show ?thesis
    by (metis distinctKeys_def eq_key_imp_eq_value)
qed

lemma batchFetchTxs_proj:
  "m_txsTable (fst (batchFetchTxs cfg txs sys lim av dup s))
     = fst (batchFetchTxs_loop cfg lim av dup (m_txsTable s) (s, txs, sys))"
  "m_invalidTxs (fst (batchFetchTxs cfg txs sys lim av dup s))
     = m_invalidTxs (fst (snd (batchFetchTxs_loop cfg lim av dup (m_txsTable s) (s, txs, sys))))"
  "m_invalidNonces (fst (batchFetchTxs cfg txs sys lim av dup s))
     = m_invalidNonces (fst (snd (batchFetchTxs_loop cfg lim av dup (m_txsTable s) (s, txs, sys))))"
  "fst (snd (batchFetchTxs cfg txs sys lim av dup s))
     = fst (snd (snd (batchFetchTxs_loop cfg lim av dup (m_txsTable s) (s, txs, sys))))"
  "snd (snd (batchFetchTxs cfg txs sys lim av dup s))
     = snd (snd (snd (batchFetchTxs_loop cfg lim av dup (m_txsTable s) (s, txs, sys))))"
  by (simp_all add: batchFetchTxs_def case_prod_unfold Let_def)

lemma not_emitted:
  assumes wf: "distinctKeys (m_txsTable s)" "keysMatch (m_txsTable s)"
    and mem: "(k, tx) \<in> set (m_txsTable s)"
    and fail: "submittedToChain cfg tx = NonceCheckFail
               \<or> (submittedToChain cfg tx = BlockLimitCheckFail \<and> \<not> sealed tx)"
    and fresh: "hash tx \<notin> metaHash ` (set txs \<union> set sys)"
  shows "hash tx \<notin> metaHash ` (set (fst (snd (batchFetchTxs cfg txs sys lim av dup s)))
                               \<union> set (snd (snd (batchFetchTxs cfg txs sys lim av dup s))))"
proof
  assume "hash tx \<in> metaHash ` (set (fst (snd (batchFetchTxs cfg txs sys lim av dup s)))
                               \<union> set (snd (snd (batchFetchTxs cfg txs sys lim av dup s))))"
  then obtain m where m: "metaHash m = hash tx"
      "m \<in> set (fst (snd (snd (batchFetchTxs_loop cfg lim av dup (m_txsTable s) (s, txs, sys)))))
         \<union> set (snd (snd (snd (batchFetchTxs_loop cfg lim av dup (m_txsTable s) (s, txs, sys)))))"
    unfolding batchFetchTxs_proj by auto
  from loop_output_source [OF m(2)] fresh m(1)
  obtain e where e: "e \<in> set (m_txsTable s)" "metaHash m = hash (snd e)"
      "submittedToChain cfg (snd e) \<noteq> NonceCheckFail"
      "\<not> (submittedToChain cfg (snd e) = BlockLimitCheckFail \<and> \<not> sealed (snd e))"
    by (metis imageI)
  have "snd e = tx"
    using entry_unique [OF wf mem e(1)] e(2) m(1) by simp
  with e(3,4) fail show False by simp
qed

lemma not_invalidated:
  assumes wf: "distinctKeys (m_txsTable s)" "keysMatch (m_txsTable s)"
    and mem: "(k, tx) \<in> set (m_txsTable s)"
    and fail: "submittedToChain cfg tx = NonceCheckFail"
    and fresh: "hash tx \<notin> m_invalidTxs s"
  shows "hash tx \<notin> m_invalidTxs (fst (batchFetchTxs cfg txs sys lim av dup s))"
proof
  assume "hash tx \<in> m_invalidTxs (fst (batchFetchTxs cfg txs sys lim av dup s))"
  then have "hash tx \<in> m_invalidTxs
               (fst (snd (batchFetchTxs_loop cfg lim av dup (m_txsTable s) (s, txs, sys))))"
    unfolding batchFetchTxs_proj .
  from loop_invalid_source [OF this] fresh
  obtain e where e: "e \<in> set (m_txsTable s)" "hash (snd e) = hash tx"
      "submittedToChain cfg (snd e) = BlockLimitCheckFail"
    by auto
  have "snd e = tx" using entry_unique [OF wf mem e(1,2)] .
  with e(3) fail show False by simp
qed

lemma example_fetch:
  "batchFetchTxs expiryConfig [] [] 10 None False expiryPool =
     (expiryPool\<lparr>m_txsTable := [(204, exampleTx 204), (3, exampleTx 3),
                                  (1, (exampleTx 1)\<lparr>sealed := True\<rparr>)],
                 m_sealedTxsSize := 1, m_invalidTxs := {204}, m_invalidNonces := {204},
                 notifierQueue := [RemoveInvalidTxsJob]\<rparr>,
      [\<lparr>metaHash = 1, metaTo = ''0xa'', metaSource = ''From rpc''\<rparr>], [])"
  by (simp add: batchFetchTxs_def batchFetchTxs_loop.simps(2) expiryConfig_def exampleConfig_def
        expiryPool_def emptyPool_def exampleTx_def consEntry_def notifyUnsealedTxsSize.simps)

text \<open>
  C5: let the table, with distinct keys and every entry under its transaction's hash,
  hold the transaction \<open>tx\<close>.

  If the validator's \<^verbatim>\<open>submittedToChain\<close> answers \<open>NonceCheckFail\<close> for it: the step
  of the scan that visits it goes on with the pool and both output lists unchanged;
  after \<^verbatim>\<open>batchFetchTxs\<close> the entry is in the table as it was, its hash is not in the
  invalid-hash set unless it was there before, and no record with its hash is in
  either output list unless one was there before.

  If the answer is \<open>BlockLimitCheckFail\<close> and the transaction is unsealed: the step
  that visits it, when its hash is not yet in the invalid-hash set, puts the hash
  there and the nonce into the invalid-nonce set and goes on with both output lists
  unchanged; after \<^verbatim>\<open>batchFetchTxs\<close> the entry is in the table as it was and no record
  with its hash has been emitted; and when the scan was not cut short by the limit
  (so every entry was scanned), the hash is in the invalid-hash set, and the nonce in
  the invalid-nonce set if the hash was not invalid before.
\<close>

theorem batchFetchTxs_failed_checks:
  assumes "distinctKeys (m_txsTable s)" and "keysMatch (m_txsTable s)"
    and "(k, tx) \<in> set (m_txsTable s)"
  shows
    "(submittedToChain cfg tx = NonceCheckFail \<longrightarrow>
        (\<forall>rest (s1 :: MemoryStorage) txs1 sys1.
           batchFetchTxs_loop cfg lim av dup ((k, tx) # rest) (s1, txs1, sys1)
             = consEntry (k, tx) (batchFetchTxs_loop cfg lim av dup rest (s1, txs1, sys1)))
      \<and> (k, tx) \<in> set (m_txsTable (fst (batchFetchTxs cfg txs sys lim av dup s)))
      \<and> (hash tx \<notin> m_invalidTxs s
            \<longrightarrow> hash tx \<notin> m_invalidTxs (fst (batchFetchTxs cfg txs sys lim av dup s)))
      \<and> (hash tx \<notin> metaHash ` (set txs \<union> set sys)
            \<longrightarrow> hash tx \<notin> metaHash ` (set (fst (snd (batchFetchTxs cfg txs sys lim av dup s)))
                                        \<union> set (snd (snd (batchFetchTxs cfg txs sys lim av dup s))))))
   \<and> (submittedToChain cfg tx = BlockLimitCheckFail \<and> \<not> sealed tx \<longrightarrow>
        (\<forall>rest (s1 :: MemoryStorage) txs1 sys1. hash tx \<notin> m_invalidTxs s1 \<longrightarrow>
           batchFetchTxs_loop cfg lim av dup ((k, tx) # rest) (s1, txs1, sys1)
             = consEntry (k, tx)
                 (batchFetchTxs_loop cfg lim av dup rest
                    (s1\<lparr>m_invalidTxs := insert (hash tx) (m_invalidTxs s1),
                        m_invalidNonces := insert (nonce tx) (m_invalidNonces s1)\<rparr>,
                     txs1, sys1)))
      \<and> (k, tx) \<in> set (m_txsTable (fst (batchFetchTxs cfg txs sys lim av dup s)))
      \<and> (hash tx \<notin> metaHash ` (set txs \<union> set sys)
            \<longrightarrow> hash tx \<notin> metaHash ` (set (fst (snd (batchFetchTxs cfg txs sys lim av dup s)))
                                        \<union> set (snd (snd (batchFetchTxs cfg txs sys lim av dup s)))))
      \<and> (length (fst (snd (batchFetchTxs cfg txs sys lim av dup s)))
            + length (snd (snd (batchFetchTxs cfg txs sys lim av dup s))) < lim
          \<longrightarrow> hash tx \<in> m_invalidTxs (fst (batchFetchTxs cfg txs sys lim av dup s))
            \<and> (hash tx \<notin> m_invalidTxs s
                 \<longrightarrow> nonce tx \<in> m_invalidNonces (fst (batchFetchTxs cfg txs sys lim av dup s)))))"
proof (intro conjI impI allI)
  fix rest and s1 :: MemoryStorage and txs1 sys1
  assume "submittedToChain cfg tx = NonceCheckFail"
  then have "\<not> fetchInvalidates cfg s1 tx" "\<not> fetchEmits cfg av dup s1 tx"
    by (simp_all add: fetchInvalidates_def fetchEmits_def)
  then show "batchFetchTxs_loop cfg lim av dup ((k, tx) # rest) (s1, txs1, sys1)
             = consEntry (k, tx) (batchFetchTxs_loop cfg lim av dup rest (s1, txs1, sys1))"
    by (rule loop_skips)
next
  fix rest and s1 :: MemoryStorage and txs1 sys1
  assume "submittedToChain cfg tx = BlockLimitCheckFail \<and> \<not> sealed tx" "hash tx \<notin> m_invalidTxs s1"
  then have "fetchInvalidates cfg s1 tx" by (simp add: fetchInvalidates_def)
  then show "batchFetchTxs_loop cfg lim av dup ((k, tx) # rest) (s1, txs1, sys1)
             = consEntry (k, tx)
                 (batchFetchTxs_loop cfg lim av dup rest
                    (s1\<lparr>m_invalidTxs := insert (hash tx) (m_invalidTxs s1),
                        m_invalidNonces := insert (nonce tx) (m_invalidNonces s1)\<rparr>,
                     txs1, sys1))"
    by (rule loop_invalidates)
next
  assume "submittedToChain cfg tx = NonceCheckFail"
  then show "(k, tx) \<in> set (m_txsTable (fst (batchFetchTxs cfg txs sys lim av dup s)))"
    unfolding batchFetchTxs_proj using assms(3) by (simp add: loop_entry_kept)
next
  assume "submittedToChain cfg tx = BlockLimitCheckFail \<and> \<not> sealed tx"
  then show "(k, tx) \<in> set (m_txsTable (fst (batchFetchTxs cfg txs sys lim av dup s)))"
    unfolding batchFetchTxs_proj using assms(3) by (simp add: loop_entry_kept)
next
  assume "submittedToChain cfg tx = NonceCheckFail" "hash tx \<notin> m_invalidTxs s"
  then show "hash tx \<notin> m_invalidTxs (fst (batchFetchTxs cfg txs sys lim av dup s))"
    using not_invalidated [OF assms] by simp
next
  assume "submittedToChain cfg tx = NonceCheckFail" "hash tx \<notin> metaHash ` (set txs \<union> set sys)"
  then show "hash tx \<notin> metaHash ` (set (fst (snd (batchFetchTxs cfg txs sys lim av dup s)))
                                        \<union> set (snd (snd (batchFetchTxs cfg txs sys lim av dup s))))"
    using not_emitted [OF assms] by simp
next
  assume "submittedToChain cfg tx = BlockLimitCheckFail \<and> \<not> sealed tx"
    "hash tx \<notin> metaHash ` (set txs \<union> set sys)"
  then show "hash tx \<notin> metaHash ` (set (fst (snd (batchFetchTxs cfg txs sys lim av dup s)))
                                        \<union> set (snd (snd (batchFetchTxs cfg txs sys lim av dup s))))"
    using not_emitted [OF assms] by simp
next
  assume f: "submittedToChain cfg tx = BlockLimitCheckFail \<and> \<not> sealed tx"
    and c: "length (fst (snd (batchFetchTxs cfg txs sys lim av dup s)))
            + length (snd (snd (batchFetchTxs cfg txs sys lim av dup s))) < lim"
  from c have c': "length (fst (snd (snd (batchFetchTxs_loop cfg lim av dup (m_txsTable s) (s, txs, sys)))))
     + length (snd (snd (snd (batchFetchTxs_loop cfg lim av dup (m_txsTable s) (s, txs, sys))))) < lim"
    unfolding batchFetchTxs_proj .
  from f have f1: "submittedToChain cfg tx = BlockLimitCheckFail" and f2: "\<not> sealed tx" by simp_all
  show "hash tx \<in> m_invalidTxs (fst (batchFetchTxs cfg txs sys lim av dup s))"
    unfolding batchFetchTxs_proj using loop_complete_hash [OF c' assms(3) f1 f2] .
  assume fresh: "hash tx \<notin> m_invalidTxs s"
  have d: "distinct (map (\<lambda>e. hash (snd e)) (m_txsTable s))"
    using assms(1,2) by (simp add: keysMatch_hashes distinctKeys_def)
  show "nonce tx \<in> m_invalidNonces (fst (batchFetchTxs cfg txs sys lim av dup s))"
    unfolding batchFetchTxs_proj using loop_complete_nonce [OF d c' assms(3) f1 f2 fresh] .
qed

theorem batchFetchTxs_failed_checks_witness:
  "distinctKeys (m_txsTable expiryPool) \<and> keysMatch (m_txsTable expiryPool)
   \<and> (204, exampleTx 204) \<in> set (m_txsTable expiryPool)
   \<and> (3, exampleTx 3) \<in> set (m_txsTable expiryPool)
   \<and> submittedToChain expiryConfig (exampleTx 3) = NonceCheckFail
   \<and> submittedToChain expiryConfig (exampleTx 204) = BlockLimitCheckFail
   \<and> \<not> sealed (exampleTx 204)
   \<and> hash (exampleTx 3) \<notin> m_invalidTxs (fst (batchFetchTxs expiryConfig [] [] 10 None False expiryPool))
   \<and> hash (exampleTx 204) \<in> m_invalidTxs (fst (batchFetchTxs expiryConfig [] [] 10 None False expiryPool))
   \<and> nonce (exampleTx 204)
        \<in> m_invalidNonces (fst (batchFetchTxs expiryConfig [] [] 10 None False expiryPool))
   \<and> hash (exampleTx 204)
        \<notin> metaHash ` (set (fst (snd (batchFetchTxs expiryConfig [] [] 10 None False expiryPool)))
                       \<union> set (snd (snd (batchFetchTxs expiryConfig [] [] 10 None False expiryPool))))"
proof -
  have d: "distinctKeys (m_txsTable expiryPool)"
    by (simp add: distinctKeys_def expiryPool_def)
  have m: "keysMatch (m_txsTable expiryPool)"
    by (simp add: keysMatch_def expiryPool_def exampleTx_def)
  have a: "(204, exampleTx 204) \<in> set (m_txsTable expiryPool)"
    by (simp add: expiryPool_def)
  have b: "(3, exampleTx 3) \<in> set (m_txsTable expiryPool)"
    by (simp add: expiryPool_def)
  have c: "submittedToChain expiryConfig (exampleTx 3) = NonceCheckFail
           \<and> submittedToChain expiryConfig (exampleTx 204) = BlockLimitCheckFail
           \<and> \<not> sealed (exampleTx 204)"
    by (simp add: expiryConfig_def exampleConfig_def exampleTx_def)
  have e: "hash (exampleTx 3) \<notin> m_invalidTxs expiryPool
           \<and> hash (exampleTx 204) \<notin> m_invalidTxs expiryPool"
    by (simp add: expiryPool_def emptyPool_def)
  have l: "length (fst (snd (batchFetchTxs expiryConfig [] [] 10 None False expiryPool)))
            + length (snd (snd (batchFetchTxs expiryConfig [] [] 10 None False expiryPool))) < 10"
    by (simp add: example_fetch)
  show ?thesis
    using d m a b c e l
      batchFetchTxs_failed_checks [OF d m a, of expiryConfig 10 None False "[]" "[]"]
      batchFetchTxs_failed_checks [OF d m b, of expiryConfig 10 None False "[]" "[]"]
    by simp
qed

section \<open>C6: the block number never decreases\<close>

text \<open>
  C6: after \<^verbatim>\<open>batchRemove(batchId, results)\<close> the block number is the maximum of the
  previous block number and \<open>batchId\<close>; hence it is never below the previous one.
\<close>

theorem batchRemove_blockNumber_max:
  "m_blockNumber (batchRemove cfg now b txsResult s) = max (m_blockNumber s) b
   \<and> m_blockNumber s \<le> m_blockNumber (batchRemove cfg now b txsResult s)"
  using batchRemove_loop_blockNumber
          [of cfg txsResult "(s\<lparr>m_blockNumberUpdatedTime := now\<rparr>, [], 0)"]
  by (auto simp: batchRemove_def case_prod_unfold)

section \<open>C7: the pre-commit gives up after four attempts\<close>

declare drainWorker.simps [simp del]

lemma runWorkerJob_budget:
  "length (ledgerStores (runWorkerJob ledger s)) + queueBudget (runWorkerJob ledger s)
     \<le> length (ledgerStores s) + queueBudget s"
  by (cases "workerQueue s")
     (auto simp: queueBudget_def runWorkerJob_def jobBudget_def preCommitTransaction_def
           split: StoreOutcome.splits)

lemma runWorkerJob_fields:
  "m_txsTable (runWorkerJob ledger s) = m_txsTable s"
  "m_sealedTxsSize (runWorkerJob ledger s) = m_sealedTxsSize s"
  "submitCallbackCalls (runWorkerJob ledger s) = submitCallbackCalls s"
  "notifierQueue (runWorkerJob ledger s) = notifierQueue s"
  by (cases "workerQueue s";
      auto simp: runWorkerJob_def preCommitTransaction_def split: StoreOutcome.splits)+

lemma drainWorker_budget:
  "length (ledgerStores (drainWorker ledger s)) \<le> length (ledgerStores s) + queueBudget s"
proof (induction ledger s rule: drainWorker.induct)
  case (1 ledger s)
  show ?case
  proof (cases "workerQueue s = []")
    case True
    then show ?thesis by (subst drainWorker.simps) simp
  next
    case False
    then have "drainWorker ledger s = drainWorker ledger (runWorkerJob ledger s)"
      by (subst drainWorker.simps) simp
    moreover have "length (ledgerStores (drainWorker ledger (runWorkerJob ledger s)))
                     \<le> length (ledgerStores (runWorkerJob ledger s))
                         + queueBudget (runWorkerJob ledger s)"
      using "1.IH" False by simp
    ultimately show ?thesis
      using runWorkerJob_budget [of ledger s] by simp
  qed
qed

lemma drainWorker_fields:
  "workerQueue (drainWorker ledger s) = []
   \<and> m_txsTable (drainWorker ledger s) = m_txsTable s
   \<and> m_sealedTxsSize (drainWorker ledger s) = m_sealedTxsSize s
   \<and> submitCallbackCalls (drainWorker ledger s) = submitCallbackCalls s
   \<and> notifierQueue (drainWorker ledger s) = notifierQueue s"
proof (induction ledger s rule: drainWorker.induct)
  case (1 ledger s)
  show ?case
  proof (cases "workerQueue s = []")
    case True
    then show ?thesis by (subst (1 2 3 4 5) drainWorker.simps) simp
  next
    case False
    then have "drainWorker ledger s = drainWorker ledger (runWorkerJob ledger s)"
      by (subst drainWorker.simps) simp
    with "1.IH" False show ?thesis
      by (simp add: runWorkerJob_fields)
  qed
qed

lemma drainWorker_all_fail:
  assumes "workerQueue s = []" and "\<forall>r. ledger (hash tx) r = StoreFailed"
  shows "ledgerStores (drainWorker ledger (preCommitTransaction tx 0 s))
           = ledgerStores s @ [(hash tx, 0), (hash tx, 1), (hash tx, 2), (hash tx, 3)]"
  using assms
  by (simp add: drainWorker.simps preCommitTransaction_def runWorkerJob_def)

text \<open>
  C7: a pre-commit started by \<^verbatim>\<open>preCommitTransaction(_tx)\<close> adds at most 4 store
  attempts to those the jobs already queued can cause, whatever the ledger answers;
  when the worker has run its queue empty the table is as before, no submit callback
  has been invoked and nothing has been handed to the notifier. On an idle worker the
  pre-commit asks the ledger at most 4 times in total, and if every attempt fails the
  attempts are exactly those with retry numbers 0, 1, 2 and 3, after which nothing is
  queued any more.
\<close>

theorem preCommit_bounded:
  "length (ledgerStores (drainWorker ledger (preCommitTransaction tx 0 s)))
     \<le> length (ledgerStores s) + queueBudget s + 4
   \<and> workerQueue (drainWorker ledger (preCommitTransaction tx 0 s)) = []
   \<and> m_txsTable (drainWorker ledger (preCommitTransaction tx 0 s)) = m_txsTable s
   \<and> submitCallbackCalls (drainWorker ledger (preCommitTransaction tx 0 s))
       = submitCallbackCalls s
   \<and> notifierQueue (drainWorker ledger (preCommitTransaction tx 0 s)) = notifierQueue s
   \<and> (workerQueue s = [] \<longrightarrow>
        length (ledgerStores (drainWorker ledger (preCommitTransaction tx 0 s)))
          \<le> length (ledgerStores s) + 4
      \<and> ((\<forall>r. ledger (hash tx) r = StoreFailed) \<longrightarrow>
            ledgerStores (drainWorker ledger (preCommitTransaction tx 0 s))
              = ledgerStores s @ [(hash tx, 0), (hash tx, 1), (hash tx, 2), (hash tx, 3)]))"
proof -
  have q: "queueBudget (preCommitTransaction tx 0 s) = queueBudget s + 4"
    by (simp add: queueBudget_def preCommitTransaction_def jobBudget_def)
  have bound: "length (ledgerStores (drainWorker ledger (preCommitTransaction tx 0 s)))
           \<le> length (ledgerStores s) + queueBudget s + 4"
    using drainWorker_budget [of ledger "preCommitTransaction tx 0 s"] q
    by (simp add: preCommitTransaction_def)
  have idle: "workerQueue s = [] \<Longrightarrow> queueBudget s = 0"
    by (simp add: queueBudget_def)
  show ?thesis
    using bound idle drainWorker_fields [of ledger "preCommitTransaction tx 0 s"]
      drainWorker_all_fail [of s ledger tx]
    by (auto simp add: preCommitTransaction_def)
qed

theorem preCommit_bounded_witness:
  "workerQueue examplePool = []
   \<and> ledgerStores (drainWorker (\<lambda>h r. StoreFailed) (preCommitTransaction (exampleTx 1) 0 examplePool))
       = [(1, 0), (1, 1), (1, 2), (1, 3)]
   \<and> m_txsTable (drainWorker (\<lambda>h r. StoreFailed) (preCommitTransaction (exampleTx 1) 0 examplePool))
       = m_txsTable examplePool
   \<and> submitCallbackCalls
        (drainWorker (\<lambda>h r. StoreFailed) (preCommitTransaction (exampleTx 1) 0 examplePool)) = []"
proof -
  have a: "workerQueue examplePool = []" by (simp add: examplePool_def emptyPool_def)
  show ?thesis
    using a preCommit_bounded [of "\<lambda>h r. StoreFailed" "exampleTx 1" examplePool]
    by (simp add: examplePool_def emptyPool_def exampleTx_def)
qed

section \<open>C8: unknown hashes and the missed set\<close>

lemma appendKnownNode_step_fields [simp]:
  "m_missedTxs (appendKnownNode_step p h s) = m_missedTxs s"
  "count_tbl (m_txsTable (appendKnownNode_step p h s)) k = count_tbl (m_txsTable s) k"
  by (auto simp: appendKnownNode_step_def count_tbl_def update_conv' split: option.splits)

lemma appendKnownNode_fold_fields [simp]:
  "m_missedTxs (fold (appendKnownNode_step p) hs s) = m_missedTxs s"
  "count_tbl (m_txsTable (fold (appendKnownNode_step p) hs s)) k = count_tbl (m_txsTable s) k"
  by (induction hs arbitrary: s) simp_all

lemma filterUnknown_fold:
  "distinct u \<Longrightarrow> set u \<subseteq> m_missedTxs s \<Longrightarrow>
   set (fst (fold filterUnknown_step hs (u, s)))
     = set u \<union> {h \<in> set hs. \<not> count_tbl (m_txsTable s) h \<and> h \<notin> m_missedTxs s}
   \<and> distinct (fst (fold filterUnknown_step hs (u, s)))
   \<and> m_missedTxs (snd (fold filterUnknown_step hs (u, s)))
       = m_missedTxs s \<union> {h \<in> set hs. \<not> count_tbl (m_txsTable s) h \<and> h \<notin> m_missedTxs s}
   \<and> m_txsTable (snd (fold filterUnknown_step hs (u, s))) = m_txsTable s"
proof (induction hs arbitrary: u s)
  case Nil
  then show ?case by simp
next
  case (Cons h hs)
  show ?case
  proof (cases "count_tbl (m_txsTable s) h \<or> h \<in> m_missedTxs s")
    case True
    then have "filterUnknown_step h (u, s) = (u, s)"
      by (auto simp: filterUnknown_step_def)
    with Cons.IH [OF Cons.prems] True show ?thesis by auto
  next
    case False
    let ?s' = "s\<lparr>m_missedTxs := insert h (m_missedTxs s)\<rparr>"
    from False have step: "filterUnknown_step h (u, s) = (u @ [h], ?s')"
      by (auto simp: filterUnknown_step_def)
    have d: "distinct (u @ [h])" using Cons.prems False by auto
    have sub: "set (u @ [h]) \<subseteq> m_missedTxs ?s'" using Cons.prems by auto
    from Cons.IH [OF d sub] step False show ?thesis by auto
  qed
qed

lemma example_filter_small:
  "filterUnknownTxs limit4Config [1, 3, 3] 9 examplePool =
     ([3], examplePool\<lparr>m_txsTable := [(1, (exampleTx 1)\<lparr>knownNodes := {9}\<rparr>),
                                      (2, (exampleTx 2)\<lparr>sealed := True\<rparr>)],
                      m_missedTxs := {3}\<rparr>)"
  by (simp add: filterUnknownTxs_def filterUnknown_step_def appendKnownNode_step_def
        limit4Config_def exampleConfig_def examplePool_def emptyPool_def exampleTx_def count_tbl_def
        word_le_nat_alt)

lemma example_filter_pressure:
  "filterUnknownTxs limit4Config [1, 2, 3, 4, 5] 9 emptyPool = ([1, 2, 3, 4, 5], emptyPool)"
  by (simp add: filterUnknownTxs_def filterUnknown_step_def appendKnownNode_step_def
        limit4Config_def exampleConfig_def emptyPool_def count_tbl_def word_le_nat_alt)

text \<open>
  C8: \<^verbatim>\<open>filterUnknownTxs\<close> returns, each once, exactly the hashes of its input that are
  neither in the table nor in the missed set before the call, and puts them into the
  missed set; if the missed set then holds at least \<open>poolLimit\<close> hashes it is emptied
  before the call returns. The size of the missed set is a \<open>size_t\<close>.
\<close>

theorem filterUnknownTxs_result:
  assumes "card (m_missedTxs s \<union> set (fst (filterUnknownTxs cfg hs peer s))) < 2 ^ 64"
  shows "set (fst (filterUnknownTxs cfg hs peer s))
           = {h \<in> set hs. \<not> count_tbl (m_txsTable s) h \<and> h \<notin> m_missedTxs s}
       \<and> distinct (fst (filterUnknownTxs cfg hs peer s))
       \<and> m_missedTxs (snd (filterUnknownTxs cfg hs peer s))
           = (if unat (poolLimit cfg)
                   \<le> card (m_missedTxs s \<union> set (fst (filterUnknownTxs cfg hs peer s)))
              then {} else m_missedTxs s \<union> set (fst (filterUnknownTxs cfg hs peer s)))"
proof -
  let ?s0 = "fold (appendKnownNode_step peer) hs s"
  let ?r = "fold filterUnknown_step hs ([], ?s0)"
  let ?U = "{h \<in> set hs. \<not> count_tbl (m_txsTable s) h \<and> h \<notin> m_missedTxs s}"
  have f: "set (fst ?r) = ?U \<and> distinct (fst ?r) \<and> m_missedTxs (snd ?r) = m_missedTxs s \<union> ?U"
    using filterUnknown_fold [of "[]" ?s0 hs] by simp
  have res: "fst (filterUnknownTxs cfg hs peer s) = fst ?r"
    by (simp add: filterUnknownTxs_def case_prod_unfold)
  have fits: "card (m_missedTxs s \<union> ?U) < 2 ^ 64"
    using assms f res by simp
  have cmp: "(poolLimit cfg \<le> of_nat (card (m_missedTxs s \<union> ?U)))
              = (unat (poolLimit cfg) \<le> card (m_missedTxs s \<union> ?U))"
    using fits by (simp add: word_le_nat_alt unat_of_nat)
  show ?thesis
    using f cmp by (simp add: filterUnknownTxs_def case_prod_unfold)
qed

theorem filterUnknownTxs_result_witness:
  "fst (filterUnknownTxs limit4Config [1, 3, 3] 9 examplePool) = [3]
   \<and> m_missedTxs (snd (filterUnknownTxs limit4Config [1, 3, 3] 9 examplePool)) = {3}
   \<and> fst (filterUnknownTxs limit4Config [1, 2, 3, 4, 5] 9 emptyPool) = [1, 2, 3, 4, 5]
   \<and> m_missedTxs (snd (filterUnknownTxs limit4Config [1, 2, 3, 4, 5] 9 emptyPool)) = {}"
proof -
  have m: "m_missedTxs examplePool = {}" by (simp add: examplePool_def emptyPool_def)
  have a: "card (m_missedTxs examplePool
                  \<union> set (fst (filterUnknownTxs limit4Config [1, 3, 3] 9 examplePool))) < 2 ^ 64"
    by (simp add: example_filter_small m)
  have m': "m_missedTxs emptyPool = {}" by (simp add: emptyPool_def)
  have b: "card (m_missedTxs emptyPool
                  \<union> set (fst (filterUnknownTxs limit4Config [1, 2, 3, 4, 5] 9 emptyPool))) < 2 ^ 64"
    by (simp add: example_filter_pressure m')
  show ?thesis
    using filterUnknownTxs_result [OF a] filterUnknownTxs_result [OF b]
    by (simp add: example_filter_small example_filter_pressure m m')
qed

section \<open>C9: the unsealed size\<close>

text \<open>
  C9: the unsealed-size query returns \<open>max 0 (|TxTable| - sealed_count)\<close>, the
  numbers read as integers: the difference when the counter does not exceed the table
  size, 0 otherwise; it is never negative. The table's size is a \<open>size_t\<close>.
\<close>

theorem unSealedTxsSize_max:
  assumes "tableFits (m_txsTable s)"
  shows "uint (fst (unSealedTxsSize s))
           = max 0 (int (length (m_txsTable s)) - uint (m_sealedTxsSize s))
         \<and> 0 \<le> uint (fst (unSealedTxsSize s))"
  using assms unSealed_unat [of s]
  by (simp add: unSealedTxsSize_def tableFits_def uint_nat del: of_nat_unat)

theorem unSealedTxsSize_max_witness:
  "tableFits (m_txsTable examplePool)
   \<and> uint (fst (unSealedTxsSize examplePool)) = 1
   \<and> uint (fst (unSealedTxsSize (examplePool\<lparr>m_sealedTxsSize := 5\<rparr>))) = 0"
proof -
  have f: "tableFits (m_txsTable examplePool)"
    by (simp add: tableFits_def examplePool_def)
  have g: "tableFits (m_txsTable (examplePool\<lparr>m_sealedTxsSize := 5\<rparr>))"
    by (simp add: tableFits_def examplePool_def)
  show ?thesis
    using f unSealedTxsSize_max [OF f] unSealedTxsSize_max [OF g]
    by (simp add: examplePool_def emptyPool_def)
qed

section \<open>C10: removing an absent hash\<close>

lemma clearedPool_eq:
  "clearedPool = emptyPool\<lparr>m_sealedTxsSize := 1, m_unsealedTxsNotifier := Some (\<lambda>n r. False),
       unsealedNotified := [0], onReadyCalls := 1,
       workerQueue := [((exampleTx 1)\<lparr>sealed := True\<rparr>, 0)]\<rparr>"
  by (simp add: clearedPool_def clear_def enforceSubmitTransaction_def exampleConfig_def
        exampleTx_def emptyPool_def insert_tx_def preCommitTransaction_def
        notifyUnsealedTxsSize.simps unSealedTxsSizeWithoutLock_def size_tbl_def)

text \<open>
  C10, as stated, fails for \<^verbatim>\<open>remove\<close>: it ends with \<^verbatim>\<open>notifyUnsealedTxsSize\<close>, and
  with a notifier registered \<^verbatim>\<open>unSealedTxsSizeWithoutLock\<close> lowers a counter that
  exceeds the table size to the table size. After \<^verbatim>\<open>clear()\<close> the counter still
  holds the sealed transactions of the emptied table; removing an absent hash then
  changes the counter from 1 to 0.
\<close>

theorem remove_absent_counterexample:
  "\<not> count_tbl (m_txsTable clearedPool) 5
   \<and> m_sealedTxsSize clearedPool = 1
   \<and> m_sealedTxsSize (snd (remove exampleConfig 5 clearedPool)) = 0"
  by (simp add: clearedPool_eq count_tbl_def emptyPool_def remove_def removeWithoutLock_def
        notifyUnsealedTxsSize.simps unSealedTxsSizeWithoutLock_def size_tbl_def)

text \<open>
  C10, amended: for a hash absent from the table, \<^verbatim>\<open>removeWithoutLock\<close> returns null
  and changes nothing; \<^verbatim>\<open>remove\<close> returns null and leaves the table, the block number
  and the invalid sets as they were; it leaves the counter as it was when the counter
  does not exceed the table size (and the whole pool when no notifier is registered),
  and with a notifier and a counter above the table size it sets the counter to the
  table size.
\<close>

theorem remove_absent:
  assumes "\<not> count_tbl (m_txsTable s) h"
  shows "removeWithoutLock h s = (None, s)
       \<and> fst (remove cfg h s) = None
       \<and> m_txsTable (snd (remove cfg h s)) = m_txsTable s
       \<and> m_blockNumber (snd (remove cfg h s)) = m_blockNumber s
       \<and> m_invalidTxs (snd (remove cfg h s)) = m_invalidTxs s
       \<and> m_invalidNonces (snd (remove cfg h s)) = m_invalidNonces s
       \<and> (m_unsealedTxsNotifier s = None \<longrightarrow> snd (remove cfg h s) = s)
       \<and> (m_sealedTxsSize s \<le> size_tbl (m_txsTable s)
            \<longrightarrow> m_sealedTxsSize (snd (remove cfg h s)) = m_sealedTxsSize s)
       \<and> (m_unsealedTxsNotifier s \<noteq> None \<and> size_tbl (m_txsTable s) < m_sealedTxsSize s
            \<longrightarrow> m_sealedTxsSize (snd (remove cfg h s)) = size_tbl (m_txsTable s))"
proof -
  have r: "removeWithoutLock h s = (None, s)"
    using assms by (simp add: removeWithoutLock_def count_tbl_def)
  then have rm: "remove cfg h s = (None, notifyUnsealedTxsSize (c_maxRetryTime cfg) 0 s)"
    by (simp add: remove_def)
  show ?thesis
    unfolding rm using r
    by (simp add: notify_no_notifier notify_sealed_noclamp notify_sealed_clamp)
qed

theorem remove_absent_witness:
  "\<not> count_tbl (m_txsTable examplePool) 5
   \<and> fst (remove exampleConfig 5 examplePool) = None
   \<and> m_txsTable (snd (remove exampleConfig 5 examplePool)) = m_txsTable examplePool
   \<and> m_sealedTxsSize examplePool \<le> size_tbl (m_txsTable examplePool)
   \<and> m_sealedTxsSize (snd (remove exampleConfig 5 examplePool)) = m_sealedTxsSize examplePool
   \<and> m_unsealedTxsNotifier clearedPool \<noteq> None
   \<and> size_tbl (m_txsTable clearedPool) < m_sealedTxsSize clearedPool
   \<and> m_sealedTxsSize (snd (remove exampleConfig 5 clearedPool)) = size_tbl (m_txsTable clearedPool)"
proof -
  have a: "\<not> count_tbl (m_txsTable examplePool) 5"
    by (simp add: count_tbl_def examplePool_def emptyPool_def)
  have b: "m_sealedTxsSize examplePool \<le> size_tbl (m_txsTable examplePool)"
    by (simp add: examplePool_def emptyPool_def size_tbl_def)
  have c: "\<not> count_tbl (m_txsTable clearedPool) 5"
    by (simp add: count_tbl_def clearedPool_eq emptyPool_def)
  have d: "m_unsealedTxsNotifier clearedPool \<noteq> None
           \<and> size_tbl (m_txsTable clearedPool) < m_sealedTxsSize clearedPool"
    by (simp add: clearedPool_eq emptyPool_def size_tbl_def)
  show ?thesis
    using a b c d remove_absent [OF a, of exampleConfig] remove_absent [OF c, of exampleConfig]
    by simp
qed

end
